theory Spec2Isabelle
  imports Complex_Main "HOL-Library.Word" "HOL-Library.Log_Nat" "HOL-Library.Monad_Syntax"
begin

unbundle bit_operations_syntax

section \<open>IEEE-754 binary floating point\<close>

text \<open>
  FastMath computes on C++ \<open>float\<close>, with a few \<open>double\<close> intermediates where the
  macro \<open>M_PI\<close> takes part in an expression. The model is IEEE-754 arithmetic with
  round-to-nearest, ties-to-even, every operation rounded on its own (no fused
  multiply-add, no extended intermediate precision). A \<open>float\<close> is its 32-bit pattern,
  since \<open>sqrt\<close>, \<open>exp\<close> and \<open>log\<close> read and write the bits through a union. Patterns
  are unpacked into a sign and a magnitude (the low bits, i.e. exponent field and
  fraction read as one number); magnitudes are ordered as the absolute values are.
  Every arithmetic operation that yields a NaN yields the quiet NaN with an empty
  payload.
\<close>

record fmt =
  prec :: nat  \<comment> \<open>significand bits, the hidden bit included\<close>
  expw :: nat  \<comment> \<open>width of the exponent field\<close>

definition binary32 :: fmt where "binary32 = \<lparr>prec = 24, expw = 8\<rparr>"
definition binary64 :: fmt where "binary64 = \<lparr>prec = 53, expw = 11\<rparr>"

definition bias :: "fmt \<Rightarrow> int" where "bias f = 2 ^ (expw f - 1) - 1"
definition emin :: "fmt \<Rightarrow> int" where "emin f = 1 - bias f"
definition hid :: "fmt \<Rightarrow> nat" where "hid f = 2 ^ (prec f - 1)"
definition inf_mag :: "fmt \<Rightarrow> nat" where "inf_mag f = (2 ^ expw f - 1) * hid f"

datatype fp = Fp (fp_neg: bool) (fp_mag: nat)

text \<open>A finite magnitude \<open>k\<close> stands for the number \<open>sig f k * 2 ^ expo f k\<close>.\<close>

definition sig :: "fmt \<Rightarrow> nat \<Rightarrow> nat" where
  "sig f k = (if k < hid f then k else hid f + k mod hid f)"

definition expo :: "fmt \<Rightarrow> nat \<Rightarrow> int" where
  "expo f k = (if k < hid f then emin f else int (k div hid f) - 1 + emin f) - int (prec f - 1)"

subsection \<open>Rounding a positive rational to the nearest magnitude\<close>

definition rne_qr :: "nat \<Rightarrow> nat \<Rightarrow> nat \<Rightarrow> nat" where
  "rne_qr q r d = (if 2 * r < d then q else if d < 2 * r then q + 1 else if even q then q else q + 1)"

definition rne :: "nat \<Rightarrow> nat \<Rightarrow> nat" where
  \<comment> \<open>the integer nearest to \<open>n / d\<close>, a tie going to the even one\<close>
  "rne n d = rne_qr (n div d) (n mod d) d"

definition scaled_ge :: "nat \<Rightarrow> nat \<Rightarrow> int \<Rightarrow> bool" where
  "scaled_ge n d e = (if 0 \<le> e then d * 2 ^ nat e \<le> n else d \<le> n * 2 ^ nat (- e))"

definition ilog2_adj :: "nat \<Rightarrow> nat \<Rightarrow> int \<Rightarrow> int" where
  "ilog2_adj n d e = (if scaled_ge n d e then e else e - 1)"

definition ilog2 :: "nat \<Rightarrow> nat \<Rightarrow> int" where
  \<comment> \<open>the binary exponent of \<open>n / d\<close>: \<open>2 ^ e \<le> n / d < 2 ^ (e + 1)\<close>\<close>
  "ilog2 n d = ilog2_adj n d (int (floorlog 2 n) - int (floorlog 2 d))"

definition rne_sh :: "nat \<Rightarrow> nat \<Rightarrow> int \<Rightarrow> nat" where
  "rne_sh n d sh = (if 0 \<le> sh then rne (n * 2 ^ nat sh) d else rne n (d * 2 ^ nat (- sh)))"

definition round_at :: "fmt \<Rightarrow> nat \<Rightarrow> nat \<Rightarrow> int \<Rightarrow> nat" where
  "round_at f n d ex =
     min (nat (ex - emin f) * hid f + rne_sh n d (int (prec f - 1) - ex)) (inf_mag f)"

definition round_mag :: "fmt \<Rightarrow> nat \<Rightarrow> nat \<Rightarrow> nat" where
  \<comment> \<open>\<open>n / d\<close> rounded; a result beyond the largest finite magnitude is infinity\<close>
  "round_mag f n d = (if n = 0 then 0 else round_at f n d (max (ilog2 n d) (emin f)))"

definition round_scaled :: "fmt \<Rightarrow> nat \<Rightarrow> nat \<Rightarrow> int \<Rightarrow> nat" where
  \<comment> \<open>\<open>(n / d) * 2 ^ e\<close> rounded\<close>
  "round_scaled f n d e =
     (if 0 \<le> e then round_mag f (n * 2 ^ nat e) d else round_mag f n (d * 2 ^ nat (- e)))"

subsection \<open>Classes, comparison and arithmetic\<close>

definition is_nan :: "fmt \<Rightarrow> fp \<Rightarrow> bool" where "is_nan f a \<longleftrightarrow> inf_mag f < fp_mag a"
definition is_inf :: "fmt \<Rightarrow> fp \<Rightarrow> bool" where "is_inf f a \<longleftrightarrow> fp_mag a = inf_mag f"
definition is_fin :: "fmt \<Rightarrow> fp \<Rightarrow> bool" where "is_fin f a \<longleftrightarrow> fp_mag a < inf_mag f"
definition is_zero :: "fp \<Rightarrow> bool" where "is_zero a \<longleftrightarrow> fp_mag a = 0"
definition qnan :: "fmt \<Rightarrow> fp" where "qnan f = Fp False (inf_mag f + hid f div 2)"
definition infty :: "fmt \<Rightarrow> bool \<Rightarrow> fp" where "infty f s = Fp s (inf_mag f)"

definition ordv :: "fp \<Rightarrow> int" where
  "ordv a = (if fp_neg a then - int (fp_mag a) else int (fp_mag a))"

text \<open>Comparisons are false as soon as one side is a NaN; the two zeros are equal.\<close>

definition fp_lt :: "fmt \<Rightarrow> fp \<Rightarrow> fp \<Rightarrow> bool" where
  "fp_lt f a b \<longleftrightarrow> \<not> is_nan f a \<and> \<not> is_nan f b \<and> ordv a < ordv b"
definition fp_le :: "fmt \<Rightarrow> fp \<Rightarrow> fp \<Rightarrow> bool" where
  "fp_le f a b \<longleftrightarrow> \<not> is_nan f a \<and> \<not> is_nan f b \<and> ordv a \<le> ordv b"
definition fp_eq :: "fmt \<Rightarrow> fp \<Rightarrow> fp \<Rightarrow> bool" where
  "fp_eq f a b \<longleftrightarrow> \<not> is_nan f a \<and> \<not> is_nan f b \<and> ordv a = ordv b"

definition fp_uminus :: "fp \<Rightarrow> fp" where "fp_uminus a = Fp (\<not> fp_neg a) (fp_mag a)"
definition fp_abs :: "fp \<Rightarrow> fp" where "fp_abs a = Fp False (fp_mag a)"

definition ssig :: "fmt \<Rightarrow> fp \<Rightarrow> int" where
  "ssig f a = (if fp_neg a then - int (sig f (fp_mag a)) else int (sig f (fp_mag a)))"

definition sum_round :: "fmt \<Rightarrow> bool \<Rightarrow> int \<Rightarrow> int \<Rightarrow> fp" where
  \<comment> \<open>\<open>s * 2 ^ e\<close> rounded; an exact zero takes the sign \<open>z\<close>\<close>
  "sum_round f z s e = (if s = 0 then Fp z 0 else Fp (s < 0) (round_scaled f (nat \<bar>s\<bar>) 1 e))"

definition align_sum :: "fmt \<Rightarrow> bool \<Rightarrow> int \<Rightarrow> int \<Rightarrow> int \<Rightarrow> int \<Rightarrow> fp" where
  "align_sum f z sa ea sb eb =
     sum_round f z (sa * 2 ^ nat (ea - min ea eb) + sb * 2 ^ nat (eb - min ea eb)) (min ea eb)"

definition fp_add :: "fmt \<Rightarrow> fp \<Rightarrow> fp \<Rightarrow> fp" where
  "fp_add f a b =
     (if is_nan f a \<or> is_nan f b then qnan f
      else if is_inf f a then (if is_inf f b \<and> fp_neg a \<noteq> fp_neg b then qnan f else a)
      else if is_inf f b then b
      else align_sum f (fp_neg a \<and> fp_neg b)
             (ssig f a) (expo f (fp_mag a)) (ssig f b) (expo f (fp_mag b)))"

definition fp_sub :: "fmt \<Rightarrow> fp \<Rightarrow> fp \<Rightarrow> fp" where
  "fp_sub f a b = fp_add f a (fp_uminus b)"

definition fp_mul :: "fmt \<Rightarrow> fp \<Rightarrow> fp \<Rightarrow> fp" where
  "fp_mul f a b =
     (if is_nan f a \<or> is_nan f b then qnan f
      else if is_inf f a \<or> is_inf f b
        then (if is_zero a \<or> is_zero b then qnan f else infty f (fp_neg a \<noteq> fp_neg b))
      else Fp (fp_neg a \<noteq> fp_neg b)
             (round_scaled f (sig f (fp_mag a) * sig f (fp_mag b)) 1
                (expo f (fp_mag a) + expo f (fp_mag b))))"

definition fp_div :: "fmt \<Rightarrow> fp \<Rightarrow> fp \<Rightarrow> fp" where
  "fp_div f a b =
     (if is_nan f a \<or> is_nan f b then qnan f
      else if is_inf f a then (if is_inf f b then qnan f else infty f (fp_neg a \<noteq> fp_neg b))
      else if is_inf f b then Fp (fp_neg a \<noteq> fp_neg b) 0
      else if is_zero b then (if is_zero a then qnan f else infty f (fp_neg a \<noteq> fp_neg b))
      else Fp (fp_neg a \<noteq> fp_neg b)
             (round_scaled f (sig f (fp_mag a)) (sig f (fp_mag b))
                (expo f (fp_mag a) - expo f (fp_mag b))))"

definition rem_mag :: "fmt \<Rightarrow> nat \<Rightarrow> int \<Rightarrow> nat \<Rightarrow> int \<Rightarrow> nat" where
  "rem_mag f sa ea sb eb =
     round_scaled f ((sa * 2 ^ nat (ea - min ea eb)) mod (sb * 2 ^ nat (eb - min ea eb))) 1
       (min ea eb)"

definition fp_rem :: "fmt \<Rightarrow> fp \<Rightarrow> fp \<Rightarrow> fp" where
  \<comment> \<open>the remainder of the truncated quotient, which is exact and keeps the dividend's sign\<close>
  "fp_rem f a b =
     (if is_nan f a \<or> is_nan f b \<or> is_inf f a \<or> is_zero b then qnan f
      else if is_inf f b then a
      else Fp (fp_neg a)
             (rem_mag f (sig f (fp_mag a)) (expo f (fp_mag a))
                (sig f (fp_mag b)) (expo f (fp_mag b))))"

definition fp_cvt :: "fmt \<Rightarrow> fmt \<Rightarrow> fp \<Rightarrow> fp" where
  \<comment> \<open>conversion from format \<open>f\<close> to format \<open>g\<close>\<close>
  "fp_cvt f g a =
     (if is_nan f a then qnan g
      else if is_inf f a then infty g (fp_neg a)
      else Fp (fp_neg a) (round_scaled g (sig f (fp_mag a)) 1 (expo f (fp_mag a))))"

definition fp_trunc :: "fmt \<Rightarrow> fp \<Rightarrow> int" where
  \<comment> \<open>a finite value with its fraction discarded\<close>
  "fp_trunc f a =
     (if 0 \<le> expo f (fp_mag a) then ssig f a * 2 ^ nat (expo f (fp_mag a))
      else if fp_neg a then - (int (sig f (fp_mag a)) div 2 ^ nat (- expo f (fp_mag a)))
      else int (sig f (fp_mag a)) div 2 ^ nat (- expo f (fp_mag a)))"

subsection \<open>The C++ types \<open>float\<close>, \<open>double\<close> and \<open>int\<close>\<close>

type_synonym float = "32 word"

definition unpack :: "float \<Rightarrow> fp" where
  "unpack w = Fp (2 ^ 31 \<le> unat w) (unat w mod 2 ^ 31)"

definition pack :: "fp \<Rightarrow> float" where
  "pack a = word_of_nat (fp_mag a + (if fp_neg a then 2 ^ 31 else 0))"

definition fadd :: "float \<Rightarrow> float \<Rightarrow> float" where
  "fadd a b = pack (fp_add binary32 (unpack a) (unpack b))"
definition fsub :: "float \<Rightarrow> float \<Rightarrow> float" where
  "fsub a b = pack (fp_sub binary32 (unpack a) (unpack b))"
definition fmul :: "float \<Rightarrow> float \<Rightarrow> float" where
  "fmul a b = pack (fp_mul binary32 (unpack a) (unpack b))"
definition fdiv :: "float \<Rightarrow> float \<Rightarrow> float" where
  "fdiv a b = pack (fp_div binary32 (unpack a) (unpack b))"
definition fneg :: "float \<Rightarrow> float" where
  "fneg a = pack (fp_uminus (unpack a))"
definition fabs :: "float \<Rightarrow> float" where
  \<comment> \<open>\<open>std::abs\<close> on a \<open>float\<close>\<close>
  "fabs a = pack (fp_abs (unpack a))"
definition flt :: "float \<Rightarrow> float \<Rightarrow> bool" where
  "flt a b = fp_lt binary32 (unpack a) (unpack b)"
definition fle :: "float \<Rightarrow> float \<Rightarrow> bool" where
  "fle a b = fp_le binary32 (unpack a) (unpack b)"
definition feq :: "float \<Rightarrow> float \<Rightarrow> bool" where
  "feq a b = fp_eq binary32 (unpack a) (unpack b)"

text \<open>
  A \<open>double\<close> is kept unpacked: the library never looks at its bits. \<open>dlit n d\<close> is the
  literal with the decimal value \<open>n / d\<close>, \<open>flit n d\<close> the same with the suffix \<open>f\<close>.
\<close>

definition dlit :: "nat \<Rightarrow> nat \<Rightarrow> fp" where
  "dlit n d = Fp False (round_mag binary64 n d)"
definition flit :: "nat \<Rightarrow> nat \<Rightarrow> float" where
  "flit n d = pack (Fp False (round_mag binary32 n d))"
definition to_float :: "fp \<Rightarrow> float" where
  "to_float x = pack (fp_cvt binary64 binary32 x)"
definition to_double :: "float \<Rightarrow> fp" where
  "to_double w = fp_cvt binary32 binary64 (unpack w)"

text \<open>
  \<open>static_cast<int>\<close> truncates; it has no defined result (\<open>None\<close>) on a NaN, an
  infinity or a value outside the range of \<open>int\<close>. Throughout, a function that has
  the result \<open>None\<close> does not return a value: its execution is undefined or does not end.
\<close>

definition int_range :: "int \<Rightarrow> int option" where
  "int_range i = (if - (2 ^ 31) \<le> i \<and> i < 2 ^ 31 then Some i else None)"
definition f2i :: "float \<Rightarrow> int option" where
  "f2i w = (if is_fin binary32 (unpack w) then int_range (fp_trunc binary32 (unpack w)) else None)"
definition i2f :: "int \<Rightarrow> float" where
  "i2f i = pack (Fp (i < 0) (round_mag binary32 (nat \<bar>i\<bar>) 1))"
definition int_abs :: "int \<Rightarrow> int option" where
  \<comment> \<open>\<open>std::abs\<close> on an \<open>int\<close>\<close>
  "int_abs i = int_range \<bar>i\<bar>"

definition std_fmod :: "float \<Rightarrow> float \<Rightarrow> float" where
  \<comment> \<open>\<open>std::fmod\<close> of the C++ library\<close>
  "std_fmod a b = pack (fp_rem binary32 (unpack a) (unpack b))"

definition M_PI :: fp where
  \<comment> \<open>the macro of \<open><cmath>\<close>, a \<open>double\<close>\<close>
  "M_PI = dlit 314159265358979323846 (10 ^ 20)"


section \<open>The library\<close>

subsection \<open>Trigonometric core\<close>

definition pi_f :: float where
  \<comment> \<open>\<open>constexpr float pi = 3.14159265358979323846264338327950288\<close>\<close>
  "pi_f = to_float (dlit 314159265358979323846264338327950288 (10 ^ 35))"
definition two_pi :: float where "two_pi = fmul (to_float (dlit 2 1)) pi_f"
definition half_pi :: float where "half_pi = fdiv pi_f (to_float (dlit 2 1))"
definition B :: float where "B = fdiv (to_float (dlit 4 1)) pi_f"
definition C :: float where "C = fdiv (to_float (dlit 4 1)) (fmul pi_f pi_f)"
definition zero :: float where "zero = to_float (dlit 0 1)"
definition P :: float where "P = to_float (dlit 225 1000)"

text \<open>The two range-reduction loops, shared by \<open>sin\<close> and \<open>cos\<close>.\<close>

partial_function (option) wrap_below :: "float \<Rightarrow> float option" where
  "wrap_below theta =
     (if flt theta (fneg pi_f) then wrap_below (fadd theta two_pi) else Some theta)"

partial_function (option) wrap_above :: "float \<Rightarrow> float option" where
  "wrap_above theta =
     (if flt pi_f theta then wrap_above (fsub theta two_pi) else Some theta)"

definition sin_fm :: "float \<Rightarrow> float option" where
  "sin_fm theta0 = do {
     theta \<leftarrow> wrap_below theta0;
     theta \<leftarrow> wrap_above theta;
     Some (if flt theta zero then
        (let s = fadd (fmul theta B) (fmul (fmul C theta) theta) in
         if flt s zero then fadd (fmul P (fsub (fmul s (fneg s)) s)) s
         else fadd (fmul P (fsub (fmul s s) s)) s)
      else
        (let s = fsub (fmul theta B) (fmul (fmul C theta) theta) in
         if flt s zero then fadd (fmul P (fsub (fmul s (fneg s)) s)) s
         else fadd (fmul P (fsub (fmul s s) s)) s))
   }"

definition cos_fm :: "float \<Rightarrow> float option" where
  "cos_fm theta0 = do {
     theta \<leftarrow> wrap_below theta0;
     theta \<leftarrow> wrap_above theta;
     let theta = fadd theta half_pi;
     let theta = (if flt pi_f theta then fsub theta two_pi else theta);
     Some (if flt theta zero then
        (let c = fadd (fmul theta B) (fmul (fmul C theta) theta) in
         if flt c zero then fadd (fmul P (fsub (fmul c (fneg c)) c)) c
         else fadd (fmul P (fsub (fmul c c) c)) c)
      else
        (let c = fsub (fmul theta B) (fmul (fmul C theta) theta) in
         if flt c zero then fadd (fmul P (fsub (fmul c (fneg c)) c)) c
         else fadd (fmul P (fsub (fmul c c) c)) c))
   }"

definition sqrt_fm :: "float \<Rightarrow> float" where
  "sqrt_fm number =
     (if fle number (flit 0 1) then flit 0 1
      else
        let x = 0x1FBD1DF5 + signed_drop_bit 1 number;
            x = fmul (flit 5 10) (fadd x (fdiv number x));
            x = fmul (flit 5 10) (fadd x (fdiv number x))
        in x)"

definition atan2 :: "float \<Rightarrow> float \<Rightarrow> float" where
  "atan2 y x =
     (if flt (fabs x) (flit 1 (10 ^ 7)) \<and> flt (fabs y) (flit 1 (10 ^ 7)) then flit 0 1
      else if flt (fabs x) (flit 1 (10 ^ 7)) then
        (if fle (flit 0 1) y then to_float (fp_div binary64 M_PI (to_double (flit 2 1)))
         else to_float (fp_div binary64 (fp_uminus M_PI) (to_double (flit 2 1))))
      else
        let abs_y = fabs y;
            abs_x = fabs x;
            angle =
              (if fle abs_y abs_x then
                 (let a = fdiv abs_y abs_x in
                  to_float (fp_mul binary64 (to_double a)
                    (fp_add binary64 (fp_div binary64 M_PI (to_double (flit 4 1)))
                       (to_double (fmul (flit 273 1000) (fsub (flit 1 1) a))))))
               else
                 (let a = fdiv abs_x abs_y in
                  to_float (fp_sub binary64 (fp_div binary64 M_PI (to_double (flit 2 1)))
                    (fp_mul binary64 (to_double a)
                       (fp_add binary64 (fp_div binary64 M_PI (to_double (flit 4 1)))
                          (to_double (fmul (flit 273 1000) (fsub (flit 1 1) a))))))))
        in
          if flt x (flit 0 1) then
            (if fle (flit 0 1) y then to_float (fp_sub binary64 M_PI (to_double angle))
             else to_float (fp_add binary64 (fp_uminus M_PI) (to_double angle)))
          else
            (if flt y (flit 0 1) then fneg angle else angle))"

subsection \<open>Exponential and logarithmic core\<close>

definition exp_fm :: "float \<Rightarrow> float option" where
  "exp_fm x =
     (if flt (flit 88 1) x then Some (flit (10 ^ 38) 1)
      else if flt x (fneg (flit 87 1)) then Some (flit 0 1)
      else do {
        let inv_ln2 = flit 144269504088896341 (10 ^ 17);
        let fx = fmul x inv_ln2;
        n \<leftarrow> f2i (fadd fx (if fle (flit 0 1) fx then flit 5 10 else fneg (flit 5 10)));
        let r = fsub fx (i2f n);
        let ln2 = flit 69314718055994531 (10 ^ 17);
        let r = fmul r ln2;
        let r2 = fmul r r;
        let poly = fadd (fadd (fadd (flit 1 1) r) (fmul (flit 5 10) r2))
                     (fmul (fmul r2 r)
                        (fadd (fdiv (flit 1 1) (flit 6 1))
                           (fmul r (fadd (fdiv (flit 1 1) (flit 24 1))
                                      (fmul r (fdiv (flit 1 1) (flit 120 1)))))));
        let result = push_bit 23 (word_of_int (n + 127));
        Some (fmul poly result)
      })"

definition log_fm :: "float \<Rightarrow> float" where
  "log_fm x =
     (if fle x (flit 0 1) then fneg (flit (10 ^ 38) 1)
      else if feq x (flit 1 1) then flit 0 1
      else
        let exponent = sint (signed_drop_bit 23 x AND 0xFF) - 127;
            mantissa = (x AND 0x007FFFFF) OR 0x3F800000;
            t = fdiv (fsub mantissa (flit 1 1)) (fadd mantissa (flit 1 1));
            t2 = fmul t t;
            poly = fmul t (fadd (flit 2 1)
                     (fmul t2 (fadd (fdiv (flit 2 1) (flit 3 1))
                        (fmul t2 (fadd (fdiv (flit 2 1) (flit 5 1))
                           (fmul t2 (fadd (fdiv (flit 2 1) (flit 7 1))
                              (fdiv (fmul t2 (flit 2 1)) (flit 9 1)))))))));
            ln2 = flit 69314718055994531 (10 ^ 17)
        in fadd (fmul (i2f exponent) ln2) poly)"

function pow_loop :: "float \<Rightarrow> float \<Rightarrow> int \<Rightarrow> float" where
  "pow_loop result current_base abs_exp =
     (if 0 < abs_exp then
        pow_loop (if odd abs_exp then fmul result current_base else result)
          (fmul current_base current_base) (abs_exp div 2)
      else result)"
  by pat_completeness auto
termination
  by (relation "measure (\<lambda>(result, current_base, abs_exp). nat abs_exp)") auto

declare pow_loop.simps [simp del]

definition pow :: "float \<Rightarrow> float \<Rightarrow> float option" where
  "pow base exponent =
     (if feq exponent (flit 0 1) then Some (flit 1 1)
      else if feq exponent (flit 1 1) then Some base
      else if feq base (flit 0 1) then Some (if flt (flit 0 1) exponent then flit 0 1 else flit (10 ^ 38) 1)
      else if feq base (flit 1 1) then Some (flit 1 1)
      else if feq exponent (flit 2 1) then Some (fmul base base)
      else if feq exponent (flit 3 1) then Some (fmul (fmul base base) base)
      else if feq exponent (flit 4 1) then (let b2 = fmul base base in Some (fmul b2 b2))
      else if feq exponent (flit 5 10) then Some (sqrt_fm base)
      else if feq exponent (fneg (flit 1 1)) then Some (fdiv (flit 1 1) base)
      else if feq exponent (fneg (flit 2 1)) then Some (fdiv (flit 1 1) (fmul base base))
      else do {
        int_exp \<leftarrow> f2i exponent;
        small \<leftarrow> (if feq exponent (i2f int_exp)
                  then map_option (\<lambda>a. a \<le> 32) (int_abs int_exp) else Some False);
        if small then do {
          let negative_result = (flt base (flit 0 1) \<and> odd int_exp);
          let base = (if flt base (flit 0 1) then fneg base else base);
          abs_exp \<leftarrow> int_abs int_exp;
          let result = pow_loop (flit 1 1) base abs_exp;
          let result = (if int_exp < 0 then fdiv (flit 1 1) result else result);
          Some (if negative_result then fneg result else result)
        }
        else if flt base (flit 0 1) then Some (flit 0 1)
        else exp_fm (fmul exponent (log_fm base))
      })"

subsection \<open>Utility core\<close>

definition fmod :: "float \<Rightarrow> float \<Rightarrow> float option" where
  "fmod dividend divisor =
     (if feq divisor (flit 0 1) then Some (flit 0 1)
      else if flt (fabs dividend) (fabs divisor) then Some dividend
      else
        let max_safe_value = flit 25 1 in
        if flt max_safe_value (fabs dividend) \<or> flt max_safe_value (fabs divisor)
        then Some (std_fmod dividend divisor)
        else
          let quotient = fdiv dividend divisor in
          if flt max_safe_value (fabs quotient) then Some (std_fmod dividend divisor)
          else do {
            int_quotient \<leftarrow> f2i quotient;
            let truncated_quotient = i2f int_quotient;
            Some (fsub dividend (fmul truncated_quotient divisor))
          })"




subsection \<open>Hyperbolic core\<close>

definition sinh_fm :: "float \<Rightarrow> float option" where
  "sinh_fm x =
     (if flt (fabs x) (flit 5 10) then
        (let x2 = fmul x x in
         Some (fmul x (fadd (flit 1 1)
                 (fmul x2 (fadd (fdiv (flit 1 1) (flit 6 1))
                    (fmul x2 (fadd (fdiv (flit 1 1) (flit 120 1)) (fdiv x2 (flit 5040 1)))))))))
      else do {
        let negative = flt x (flit 0 1);
        let x = (if negative then fneg x else x);
        exp_x \<leftarrow> exp_fm x;
        let exp_neg_x = fdiv (flit 1 1) exp_x;
        let result = fmul (flit 5 10) (fsub exp_x exp_neg_x);
        Some (if negative then fneg result else result)
      })"

definition cosh_fm :: "float \<Rightarrow> float option" where
  "cosh_fm x =
     (if flt (fabs x) (flit 5 10) then
        (let x2 = fmul x x in
         Some (fadd (flit 1 1)
                 (fmul x2 (fadd (flit 5 10)
                    (fmul x2 (fadd (fdiv (flit 1 1) (flit 24 1))
                       (fmul x2 (fadd (fdiv (flit 1 1) (flit 720 1))
                          (fdiv x2 (flit 40320 1))))))))))
      else do {
        let x = fabs x;
        exp_x \<leftarrow> exp_fm x;
        let exp_neg_x = fdiv (flit 1 1) exp_x;
        Some (fmul (flit 5 10) (fadd exp_x exp_neg_x))
      })"

definition asinh :: "float \<Rightarrow> float" where
  "asinh x =
     (if flt (fabs x) (flit 5 10) then
        (let x2 = fmul x x in
         fmul x (fsub (flit 1 1)
           (fmul x2 (fsub (fdiv (flit 1 1) (flit 6 1))
              (fmul x2 (fsub (fdiv (flit 3 1) (flit 40 1))
                 (fdiv (fmul x2 (flit 15 1)) (flit 336 1))))))))
      else
        let negative = flt x (flit 0 1);
            x = (if negative then fneg x else x);
            result = log_fm (fadd x (sqrt_fm (fadd (fmul x x) (flit 1 1))))
        in if negative then fneg result else result)"

definition atanh :: "float \<Rightarrow> float" where
  "atanh x =
     (if fle (flit 1 1) (fabs x) then flit 0 1
      else if flt (fabs x) (flit 5 10) then
        (let x2 = fmul x x in
         fmul x (fadd (flit 1 1)
           (fmul x2 (fadd (fdiv (flit 1 1) (flit 3 1))
              (fmul x2 (fadd (fdiv (flit 2 1) (flit 15 1))
                 (fdiv (fmul x2 (flit 17 1)) (flit 315 1))))))))
      else fmul (flit 5 10) (log_fm (fdiv (fadd (flit 1 1) x) (fsub (flit 1 1) x))))"

text \<open>
  A \<open>float\<close> with a fractional part: a finite one whose significand has a bit set
  below the binary point.
\<close>

definition fractional :: "float \<Rightarrow> bool" where
  "fractional w =
     (let k = fp_mag (unpack w) in
      is_fin binary32 (unpack w) \<and> expo binary32 k < 0 \<and>
      sig binary32 k mod 2 ^ nat (- expo binary32 k) \<noteq> 0)"

section \<open>The sine pipeline as the specification words it\<close>

text \<open>
  Base term \<open>theta * B - sign(theta) * C * theta\<^sup>2\<close> with \<open>B = 4 / pi\<close> and
  \<open>C = 4 / pi\<^sup>2\<close>, one correction pass \<open>y + P * (y * |y| - y)\<close> with \<open>P = 0.225\<close>, and
  for the cosine a phase shift by \<open>pi / 2\<close> that is wrapped back once. The specification
  fixes no order for the product \<open>C * theta\<^sup>2\<close>; it is read from left to right.
\<close>

definition spec_B :: float where "spec_B = fdiv (flit 4 1) pi_f"
definition spec_C :: float where "spec_C = fdiv (flit 4 1) (fmul pi_f pi_f)"
definition spec_P :: float where "spec_P = flit 225 1000"

definition spec_sign :: "float \<Rightarrow> float" where
  "spec_sign x =
     (if flt x (flit 0 1) then fneg (flit 1 1)
      else if flt (flit 0 1) x then flit 1 1 else flit 0 1)"

definition spec_parabola :: "float \<Rightarrow> float" where
  "spec_parabola theta =
     fsub (fmul theta spec_B) (fmul (spec_sign theta) (fmul (fmul spec_C theta) theta))"

definition spec_correction :: "float \<Rightarrow> float" where
  "spec_correction y = fadd y (fmul spec_P (fsub (fmul y (fabs y)) y))"

definition spec_sin :: "float \<Rightarrow> float" where
  "spec_sin theta = spec_correction (spec_parabola theta)"

definition spec_rewrap :: "float \<Rightarrow> float" where
  "spec_rewrap theta = (if flt pi_f theta then fsub theta two_pi else theta)"

definition spec_cos :: "float \<Rightarrow> float" where
  "spec_cos theta = spec_sin (spec_rewrap (fadd theta half_pi))"

section \<open>Rounding to an integer as the specification words it\<close>


section \<open>Values and rounding over the reals\<close>

text \<open>
  The definitions above compute. Those of this section say what they compute: the real
  number a magnitude stands for, and rounding to nearest as a function of a real.
\<close>

definition wf_fmt :: "fmt \<Rightarrow> bool" where
  "wf_fmt f \<longleftrightarrow> 2 \<le> prec f \<and> 2 \<le> expw f"

definition mval :: "fmt \<Rightarrow> nat \<Rightarrow> real" where
  "mval f k = real (sig f k) * 2 powi expo f k"

definition fval :: "fmt \<Rightarrow> fp \<Rightarrow> real" where
  "fval f a = (if fp_neg a then - mval f (fp_mag a) else mval f (fp_mag a))"

definition rne_r :: "real \<Rightarrow> nat" where
  "rne_r y =
     (if y - real (nat \<lfloor>y\<rfloor>) < 1 / 2 then nat \<lfloor>y\<rfloor>
      else if 1 / 2 < y - real (nat \<lfloor>y\<rfloor>) then nat \<lfloor>y\<rfloor> + 1
      else if even (nat \<lfloor>y\<rfloor>) then nat \<lfloor>y\<rfloor> else nat \<lfloor>y\<rfloor> + 1)"

definition binade :: "fmt \<Rightarrow> real \<Rightarrow> int" where
  "binade f x = max \<lfloor>log 2 x\<rfloor> (emin f)"

definition rnd :: "fmt \<Rightarrow> real \<Rightarrow> nat" where
  "rnd f x =
     (if x \<le> 0 then 0
      else min (nat (binade f x - emin f) * hid f
                  + rne_r (x * 2 powi (int (prec f - 1) - binade f x)))
             (inf_mag f))"

definition ordr :: "fmt \<Rightarrow> real \<Rightarrow> int" where
  "ordr f x = (if x < 0 then - int (rnd f (- x)) else int (rnd f x))"

definition rval :: "fmt \<Rightarrow> real \<Rightarrow> real" where
  \<comment> \<open>the real number that \<open>x\<close> is rounded to (\<open>2 ^ (emax + 1)\<close> stands for infinity)\<close>
  "rval f x = (if x < 0 then - mval f (rnd f (- x)) else mval f (rnd f x))"

definition valf :: "float \<Rightarrow> real" where
  "valf w = fval binary32 (unpack w)"

definition fin32 :: "float \<Rightarrow> bool" where
  "fin32 w \<longleftrightarrow> is_fin binary32 (unpack w)"

definition nan32 :: "float \<Rightarrow> bool" where
  "nan32 w \<longleftrightarrow> is_nan binary32 (unpack w)"

definition bnd :: "float \<Rightarrow> real \<Rightarrow> bool" where
  \<comment> \<open>a finite \<open>float\<close> of magnitude at most \<open>M\<close>\<close>
  "bnd a M \<longleftrightarrow> fin32 a \<and> \<bar>valf a\<bar> \<le> M"

section \<open>Evaluation\<close>

lemma floorlog2_0: "floorlog 2 0 = 0"
  by (simp add: floorlog_def)
lemma floorlog2_1: "floorlog 2 1 = 1" "floorlog 2 (Suc 0) = 1"
  by (simp_all add: floorlog_def)
lemma floorlog2_Bit0: "floorlog 2 (numeral (Num.Bit0 n)) = floorlog 2 (numeral n) + 1"
  by (subst compute_floorlog) simp
lemma floorlog2_Bit1: "floorlog 2 (numeral (Num.Bit1 n)) = floorlog 2 (numeral n) + 1"
  by (subst compute_floorlog) simp
lemma bind_weak_cong: "m = m' \<Longrightarrow> Option.bind m f = Option.bind m' f"
  by simp

lemmas rnd_ev = binary32_def binary64_def bias_def emin_def hid_def inf_mag_def sig_def expo_def
  rne_def rne_qr_def ilog2_def round_mag_def floorlog2_0 floorlog2_1 floorlog2_Bit0 floorlog2_Bit1
  scaled_ge_def ilog2_adj_def rne_sh_def round_at_def round_scaled_def

lemmas fp_ev = is_nan_def is_inf_def is_fin_def is_zero_def qnan_def infty_def ordv_def
  fp_lt_def fp_le_def fp_eq_def fp_uminus_def fp_abs_def ssig_def sum_round_def align_sum_def
  fp_add_def fp_sub_def fp_mul_def fp_div_def fp_cvt_def fp_trunc_def rem_mag_def fp_rem_def

lemmas fl_ev = unpack_def pack_def fadd_def fsub_def fmul_def fdiv_def fneg_def fabs_def
  flt_def fle_def feq_def dlit_def flit_def to_float_def to_double_def int_range_def f2i_def
  i2f_def int_abs_def std_fmod_def M_PI_def

lemma pi_f_bits: "pi_f = 0x40490FDB"
  by (simp add: pi_f_def rnd_ev fp_ev fl_ev)
lemma two_pi_bits: "two_pi = 0x40C90FDB"
  by (simp add: two_pi_def pi_f_bits rnd_ev fp_ev fl_ev)
lemma half_pi_bits: "half_pi = 0x3FC90FDB"
  by (simp add: half_pi_def pi_f_bits rnd_ev fp_ev fl_ev)
lemma B_bits: "B = 0x3FA2F983"
  by (simp add: B_def pi_f_bits rnd_ev fp_ev fl_ev)
lemma C_bits: "C = 0x3ECF817A"
  by (simp add: C_def pi_f_bits rnd_ev fp_ev fl_ev)
lemma P_bits: "P = 0x3E666666"
  by (simp add: P_def rnd_ev fp_ev fl_ev)
lemma zero_bits: "zero = 0"
  by (simp add: zero_def rnd_ev fp_ev fl_ev)
lemmas cbits = pi_f_bits two_pi_bits half_pi_bits B_bits C_bits P_bits zero_bits

lemma flit_0: "flit 0 1 = 0" by (simp add: rnd_ev fp_ev fl_ev)
lemma flit_1: "flit 1 1 = 0x3F800000" by (simp add: rnd_ev fp_ev fl_ev)
lemma flit_half: "flit 5 10 = 0x3F000000" by (simp add: rnd_ev fp_ev fl_ev)

section \<open>Packing\<close>

lemma unpack_mag_lt: "fp_mag (unpack w) < 2 ^ 31"
  by (simp add: unpack_def)

lemma unat_word_of_nat32: "n < 2 ^ 32 \<Longrightarrow> unat (word_of_nat n :: 32 word) = n"
  by (simp add: unat_of_nat)

lemma unpack_pack: "fp_mag a < 2 ^ 31 \<Longrightarrow> unpack (pack a) = a"
proof (cases a)
  case (Fp s k)
  assume "fp_mag a < 2 ^ 31"
  with Fp have k: "k < 2 ^ 31" by simp
  then have "unat (word_of_nat (k + (if s then 2 ^ 31 else 0)) :: 32 word)
      = k + (if s then 2 ^ 31 else 0)"
    by (intro unat_word_of_nat32) auto
  with k show ?thesis
    unfolding unpack_def pack_def Fp fp.sel by (auto simp del: of_nat_add)
qed

lemma unat_lt32: "unat (w :: 32 word) < 2 ^ 32"
  using unsigned_less [of w, where 'a = nat] by simp

lemma pack_unpack: "pack (unpack w) = w"
proof -
  have "unat w mod 2 ^ 31 + (if 2 ^ 31 \<le> unat w then 2 ^ 31 else 0) = unat w"
    using unat_lt32 [of w] by (auto simp: mod_if)
  then show ?thesis by (simp add: unpack_def pack_def)
qed

lemma unpack_fneg: "unpack (fneg a) = fp_uminus (unpack a)"
  unfolding fneg_def using unpack_mag_lt [of a] by (intro unpack_pack) (simp add: fp_uminus_def)

lemma unpack_fabs: "unpack (fabs a) = fp_abs (unpack a)"
  unfolding fabs_def using unpack_mag_lt [of a] by (intro unpack_pack) (simp add: fp_abs_def)

lemma unpack_0: "unpack 0 = Fp False 0"
  by (simp add: unpack_def)

lemma flt_not_fle: "flt a b \<Longrightarrow> \<not> fle b a"
  by (simp add: flt_def fle_def fp_lt_def fp_le_def)

lemma flt_fabs_not_zero: "flt (fabs a) (fabs b) \<Longrightarrow> \<not> feq b 0"
  by (auto simp: flt_def feq_def fp_lt_def fp_eq_def unpack_fabs unpack_0 fp_abs_def ordv_def
      split: if_splits)

section \<open>Rounding: the computation and its meaning\<close>

lemma floor_log2_eq:
  assumes "0 < x" "2 powi e \<le> x" "x < 2 powi (e + 1)"
  shows "\<lfloor>log 2 x\<rfloor> = e"
proof -
  have "2 powr real_of_int k = 2 powi k" for k by (simp add: powr_real_of_int')
  with assms show ?thesis by (simp only: floor_log_eq_powr_iff [of x 2 e])
qed

lemma floor_log2_bounds:
  assumes "0 < x"
  shows "2 powi \<lfloor>log 2 x\<rfloor> \<le> x" "x < 2 powi (\<lfloor>log 2 x\<rfloor> + 1)"
proof -
  have p: "2 powr real_of_int k = 2 powi k" for k by (simp add: powr_real_of_int')
  from floor_log_eq_powr_iff [of x 2 "\<lfloor>log 2 x\<rfloor>"] assms
  have "2 powr real_of_int \<lfloor>log 2 x\<rfloor> \<le> x \<and> x < 2 powr real_of_int (\<lfloor>log 2 x\<rfloor> + 1)"
    by simp
  then show "2 powi \<lfloor>log 2 x\<rfloor> \<le> x" "x < 2 powi (\<lfloor>log 2 x\<rfloor> + 1)"
    unfolding p by simp_all
qed

lemma rne_link:
  assumes "0 < d"
  shows "rne n d = rne_r (real n / real d)"
proof -
  have fl: "nat \<lfloor>real n / real d\<rfloor> = n div d"
    by (simp add: floor_divide_of_nat_eq)
  have "real n = real (n div d) * real d + real (n mod d)"
    by (metis of_nat_add of_nat_mult div_mult_mod_eq)
  then have r: "real n / real d - real (n div d) = real (n mod d) / real d"
    using assms by (simp add: field_simps)
  have lt: "real (n mod d) / real d < 1 / 2 \<longleftrightarrow> 2 * (n mod d) < d"
    using assms by (simp add: field_simps) (metis of_nat_less_iff of_nat_mult of_nat_numeral)
  have gt: "1 / 2 < real (n mod d) / real d \<longleftrightarrow> d < 2 * (n mod d)"
    using assms by (simp add: field_simps) (metis of_nat_less_iff of_nat_mult of_nat_numeral)
  show ?thesis
    unfolding rne_def rne_qr_def rne_r_def fl r lt gt by simp
qed

lemma rne_r_of_nat: "rne_r (real m) = m"
  by (simp add: rne_r_def)

lemma rne_r_le_Suc: "0 \<le> y \<Longrightarrow> rne_r y \<le> nat \<lfloor>y\<rfloor> + 1"
  by (simp add: rne_r_def)

lemma rne_r_ge_floor: "nat \<lfloor>y\<rfloor> \<le> rne_r y"
  by (simp add: rne_r_def)

lemma rne_r_mono:
  assumes "0 \<le> x" "x \<le> y"
  shows "rne_r x \<le> rne_r y"
proof (cases "nat \<lfloor>x\<rfloor> = nat \<lfloor>y\<rfloor>")
  case True
  with assms show ?thesis by (auto simp: rne_r_def)
next
  case False
  from assms have "nat \<lfloor>x\<rfloor> \<le> nat \<lfloor>y\<rfloor>" by (simp add: floor_mono nat_mono)
  with False have "nat \<lfloor>x\<rfloor> + 1 \<le> nat \<lfloor>y\<rfloor>" by simp
  with rne_r_le_Suc [OF assms(1)] rne_r_ge_floor [of y] show ?thesis by linarith
qed

lemma rne_r_err:
  assumes "0 \<le> y"
  shows "\<bar>real (rne_r y) - y\<bar> \<le> 1 / 2"
proof -
  define q where "q = nat \<lfloor>y\<rfloor>"
  from assms have "real q = of_int \<lfloor>y\<rfloor>" by (simp add: q_def)
  then have b: "real q \<le> y" "y < real q + 1" by linarith+
  consider "y - real q < 1 / 2" | "1 / 2 < y - real q" | "y - real q = 1 / 2" by linarith
  then show ?thesis
  proof cases
    case 1
    then have "rne_r y = q" by (simp add: rne_r_def q_def)
    with 1 b show ?thesis by simp
  next
    case 2
    then have "rne_r y = q + 1" by (simp add: rne_r_def q_def)
    with 2 b show ?thesis by simp
  next
    case 3
    then have "rne_r y = q \<or> rne_r y = q + 1" by (simp add: rne_r_def q_def)
    with 3 b show ?thesis by auto
  qed
qed

lemma scaled_ge_link:
  assumes "0 < d"
  shows "scaled_ge n d e \<longleftrightarrow> 2 powi e \<le> real n / real d"
proof (cases "0 \<le> e")
  case True
  have "d * 2 ^ nat e \<le> n \<longleftrightarrow> real d * 2 ^ nat e \<le> real n"
    by (metis of_nat_le_iff of_nat_mult of_nat_numeral of_nat_power)
  with True assms show ?thesis
    by (simp add: scaled_ge_def power_int_def field_simps)
next
  case False
  have "d \<le> n * 2 ^ nat (- e) \<longleftrightarrow> real d \<le> real n * 2 ^ nat (- e)"
    by (metis of_nat_le_iff of_nat_mult of_nat_numeral of_nat_power)
  with False assms show ?thesis
    by (simp add: scaled_ge_def power_int_def field_simps)
qed

lemma ilog2_link:
  assumes "0 < n" "0 < d"
  shows "ilog2 n d = \<lfloor>log 2 (real n / real d)\<rfloor>"
proof -
  define a where "a = floorlog 2 n"
  define b where "b = floorlog 2 d"
  define x where "x = real n / real d"
  have x: "0 < x" using assms by (simp add: x_def)
  from floorlog_bounds [of n 2] assms have n: "2 ^ (a - 1) \<le> n" "n < 2 ^ a"
    by (simp_all add: a_def)
  from floorlog_bounds [of d 2] assms have d: "2 ^ (b - 1) \<le> d" "d < 2 ^ b"
    by (simp_all add: b_def)
  have a1: "1 \<le> a" using assms by (simp add: a_def floorlog_def)
  have b1: "1 \<le> b" using assms by (simp add: b_def floorlog_def)
  have rn: "2 powi (int a - 1) \<le> real n" "real n < 2 powi int a"
    using n a1 by (simp_all add: power_int_def nat_diff_distrib')
  have rd: "2 powi (int b - 1) \<le> real d" "real d < 2 powi int b"
    using d b1 by (simp_all add: power_int_def nat_diff_distrib')
  have up: "x < 2 powi (int a - int b + 1)"
  proof -
    have "x * real d = real n" using assms by (simp add: x_def)
    also have "\<dots> < 2 powi int a" by (rule rn)
    also have "\<dots> = 2 powi (int a - int b + 1) * 2 powi (int b - 1)"
      by (subst power_int_add [symmetric]) simp_all
    also have "\<dots> \<le> 2 powi (int a - int b + 1) * real d"
      using rd(1) by (simp add: mult_left_mono)
    finally show ?thesis using assms by simp
  qed
  have lo: "2 powi (int a - int b - 1) < x"
  proof -
    have "2 powi (int a - int b - 1) * real d < 2 powi (int a - int b - 1) * 2 powi int b"
      using rd(2) by simp
    also have "\<dots> = 2 powi (int a - 1)" by (subst power_int_add [symmetric]) simp_all
    also have "\<dots> \<le> real n" by (rule rn)
    also have "\<dots> = x * real d" using assms by (simp add: x_def)
    finally show ?thesis using assms by simp
  qed
  show ?thesis
  proof (cases "scaled_ge n d (int a - int b)")
    case True
    then have "2 powi (int a - int b) \<le> x"
      using assms by (simp add: scaled_ge_link x_def)
    with up x have "\<lfloor>log 2 x\<rfloor> = int a - int b" by (intro floor_log2_eq) auto
    with True show ?thesis by (simp add: ilog2_def ilog2_adj_def a_def b_def x_def)
  next
    case False
    then have "x < 2 powi (int a - int b - 1 + 1)"
      using assms by (simp add: scaled_ge_link x_def)
    with lo x have "\<lfloor>log 2 x\<rfloor> = int a - int b - 1" by (intro floor_log2_eq) auto
    with False show ?thesis by (simp add: ilog2_def ilog2_adj_def a_def b_def x_def)
  qed
qed

lemma rne_sh_link:
  assumes "0 < d"
  shows "rne_sh n d sh = rne_r (real n / real d * 2 powi sh)"
proof (cases "0 \<le> sh")
  case True
  with assms show ?thesis
    by (simp add: rne_sh_def rne_link power_int_def)
next
  case False
  with assms show ?thesis
    by (simp add: rne_sh_def rne_link power_int_def field_simps)
qed

lemma round_mag_link:
  assumes "0 < d"
  shows "round_mag f n d = rnd f (real n / real d)"
proof (cases "n = 0")
  case True
  then show ?thesis by (simp add: round_mag_def rnd_def)
next
  case False
  with assms have "\<not> real n / real d \<le> 0" by (simp add: divide_le_0_iff)
  with False assms show ?thesis
    by (simp add: round_mag_def round_at_def rnd_def binade_def ilog2_link rne_sh_link)
qed

lemma round_scaled_link:
  assumes "0 < d"
  shows "round_scaled f n d e = rnd f (real n / real d * 2 powi e)"
proof (cases "0 \<le> e")
  case True
  with assms show ?thesis
    by (simp add: round_scaled_def round_mag_link power_int_def)
next
  case False
  with assms show ?thesis
    by (simp add: round_scaled_def round_mag_link power_int_def field_simps)
qed

section \<open>Magnitudes are ordered as their values\<close>

lemma hid_pos: "0 < hid f"
  by (simp add: hid_def)

lemma real_hid: "real (hid f) = 2 powi int (prec f - 1)"
  by (simp add: hid_def power_int_def)

lemma mval_0: "mval f 0 = 0"
  by (simp add: mval_def sig_def hid_pos)

lemma mval_nonneg: "0 \<le> mval f k"
  by (simp add: mval_def)

lemma powi2_add1: "(2::real) powi (e + 1) = 2 * 2 powi e"
  by (simp add: power_int_add)

lemma powi2_less_iff: "(2::real) powi m < 2 powi n \<longleftrightarrow> m < n"
  by (metis power_int_increasing power_int_strict_increasing not_le one_le_numeral one_less_numeral_iff
      semiring_norm(76))

lemma powi2_le_iff: "(2::real) powi m \<le> 2 powi n \<longleftrightarrow> m \<le> n"
  by (metis powi2_less_iff not_le order_refl power_int_increasing one_le_numeral)

lemma mval_Suc: "mval f (Suc k) = mval f k + 2 powi expo f k"
proof -
  define h where "h = hid f"
  have h: "0 < h" by (simp add: h_def hid_pos)
  consider "Suc k < h" | "Suc k = h" | "h \<le> k" "Suc (k mod h) < h" | "h \<le> k" "Suc (k mod h) = h"
    by (metis Suc_lessI h le_less_linear mod_less_divisor not_less_eq)
  then have "sig f (Suc k) = Suc (sig f k) \<and> expo f (Suc k) = expo f k \<or>
     real (sig f (Suc k)) * 2 = real (sig f k) + 1 \<and> expo f (Suc k) = expo f k + 1"
  proof cases
    case 1
    then show ?thesis by (simp add: sig_def expo_def h_def [symmetric])
  next
    case 2
    then have "k < h" "Suc k div h = 1" "Suc k mod h = 0" by auto
    with 2 show ?thesis by (simp add: sig_def expo_def h_def [symmetric])
  next
    case 3
    then have "Suc k mod h = Suc (k mod h)" "Suc k div h = k div h"
      by (simp_all add: mod_Suc div_Suc)
    with 3 show ?thesis by (simp add: sig_def expo_def h_def [symmetric])
  next
    case 4
    then have m: "Suc k mod h = 0" "Suc k div h = Suc (k div h)"
      by (simp_all add: mod_Suc div_Suc)
    have "real h + real (k mod h) + 1 = real h * 2"
      using 4(2) by (metis of_nat_Suc of_nat_add mult_2_right add.assoc add.commute)
    with 4 m show ?thesis by (simp add: sig_def expo_def h_def [symmetric])
  qed
  then show ?thesis
  proof
    assume "sig f (Suc k) = Suc (sig f k) \<and> expo f (Suc k) = expo f k"
    then show ?thesis by (simp add: mval_def algebra_simps)
  next
    assume a: "real (sig f (Suc k)) * 2 = real (sig f k) + 1 \<and> expo f (Suc k) = expo f k + 1"
    then have "mval f (Suc k) = (real (sig f (Suc k)) * 2) * 2 powi expo f k"
      by (simp add: mval_def powi2_add1)
    with a show ?thesis by (simp add: mval_def algebra_simps)
  qed
qed

lemma mval_less_Suc: "mval f k < mval f (Suc k)"
  by (simp add: mval_Suc)

lemma mval_mono: "k \<le> k' \<Longrightarrow> mval f k \<le> mval f k'"
proof (induction k' rule: nat_induct_at_least [consumes 1])
  case base
  show ?case by simp
next
  case (Suc n)
  with mval_less_Suc [of f n] show ?case by simp
qed

lemma mval_strict_mono: "k < k' \<Longrightarrow> mval f k < mval f k'"
  using mval_mono [of "Suc k" k' f] mval_less_Suc [of f k] by simp

lemma mval_less_iff: "mval f k < mval f k' \<longleftrightarrow> k < k'"
  by (meson mval_mono mval_strict_mono not_le)

lemma mval_le_iff: "mval f k \<le> mval f k' \<longleftrightarrow> k \<le> k'"
  by (meson mval_mono mval_strict_mono not_le)

lemma mval_eq_iff: "mval f k = mval f k' \<longleftrightarrow> k = k'"
  by (metis mval_less_iff nat_neq_iff order_less_irrefl)

lemma mval_pos: "0 < k \<Longrightarrow> 0 < mval f k"
  using mval_strict_mono [of 0 k f] by (simp add: mval_0)

section \<open>Rounding is monotone and leaves representable numbers alone\<close>

lemma binade_ge: "emin f \<le> binade f x"
  by (simp add: binade_def)

lemma scaled_lt:
  assumes "0 < x"
  shows "x * 2 powi (int (prec f - 1) - binade f x) < 2 * real (hid f)"
proof -
  have "x < 2 powi (\<lfloor>log 2 x\<rfloor> + 1)" using assms by (rule floor_log2_bounds)
  also have "\<dots> \<le> 2 powi (binade f x + 1)"
    by (intro power_int_increasing) (simp_all add: binade_def)
  finally have "x * 2 powi (int (prec f - 1) - binade f x)
      < 2 powi (binade f x + 1) * 2 powi (int (prec f - 1) - binade f x)"
    by simp
  also have "\<dots> = 2 powi (int (prec f - 1) + 1)"
    by (subst power_int_add [symmetric]) (simp_all add: add.commute)
  also have "\<dots> = 2 * real (hid f)" by (simp only: powi2_add1 real_hid)
  finally show ?thesis .
qed

lemma scaled_ge:
  assumes "0 < x" "emin f \<le> \<lfloor>log 2 x\<rfloor>"
  shows "real (hid f) \<le> x * 2 powi (int (prec f - 1) - binade f x)"
proof -
  from assms have b: "binade f x = \<lfloor>log 2 x\<rfloor>" by (simp add: binade_def)
  have "real (hid f) = 2 powi binade f x * 2 powi (int (prec f - 1) - binade f x)"
    unfolding real_hid by (subst power_int_add [symmetric]) simp_all
  also have "\<dots> \<le> x * 2 powi (int (prec f - 1) - binade f x)"
    using floor_log2_bounds(1) [OF assms(1)] b by (intro mult_right_mono) simp_all
  finally show ?thesis .
qed

lemma rnd_mono:
  assumes "x \<le> y"
  shows "rnd f x \<le> rnd f y"
proof (cases "x \<le> 0")
  case True
  then show ?thesis by (simp add: rnd_def)
next
  case False
  with assms have x: "0 < x" and y: "0 < y" by simp_all
  define h where "h = hid f"
  define ex where "ex = binade f x"
  define ey where "ey = binade f y"
  define qx where "qx = x * 2 powi (int (prec f - 1) - ex)"
  define qy where "qy = y * 2 powi (int (prec f - 1) - ey)"
  from x y assms have "\<lfloor>log 2 x\<rfloor> \<le> \<lfloor>log 2 y\<rfloor>" by (intro floor_mono) simp
  then have le: "ex \<le> ey" by (simp add: ex_def ey_def binade_def)
  have qx0: "0 \<le> qx" using x by (simp add: qx_def)
  have "nat (ex - emin f) * h + rne_r qx \<le> nat (ey - emin f) * h + rne_r qy"
  proof (cases "ex = ey")
    case True
    with assms have "qx \<le> qy" by (simp add: qx_def qy_def mult_right_mono)
    with qx0 have "rne_r qx \<le> rne_r qy" by (rule rne_r_mono)
    with True show ?thesis by simp
  next
    case False
    with le have lt: "ex < ey" by simp
    have "emin f \<le> ex" by (simp add: ex_def binade_ge)
    with lt have "emin f \<le> \<lfloor>log 2 y\<rfloor>" by (simp add: ey_def binade_def max_def split: if_splits)
    from scaled_ge [OF y this] have "real h \<le> qy" by (simp add: qy_def ey_def h_def)
    then have "rne_r (real h) \<le> rne_r qy" by (intro rne_r_mono) simp_all
    then have 1: "h \<le> rne_r qy" by (simp add: rne_r_of_nat)
    from scaled_lt [OF x, of f] have "qx \<le> real (2 * h)" by (simp add: qx_def ex_def h_def)
    with qx0 have "rne_r qx \<le> rne_r (real (2 * h))" by (rule rne_r_mono)
    then have 2: "rne_r qx \<le> 2 * h" by (simp only: rne_r_of_nat)
    from lt \<open>emin f \<le> ex\<close> have "nat (ex - emin f) + 1 \<le> nat (ey - emin f)" by simp
    then have "(nat (ex - emin f) + 1) * h \<le> nat (ey - emin f) * h" by (rule mult_le_mono1)
    with 1 2 show ?thesis by (simp add: algebra_simps)
  qed
  with x y show ?thesis
    by (simp add: rnd_def not_le [symmetric] h_def ex_def ey_def qx_def qy_def min.coboundedI1)
qed

lemma rnd_le_inf: "rnd f x \<le> inf_mag f"
  by (simp add: rnd_def)

lemma rnd_exact:
  assumes "k \<le> inf_mag f"
  shows "rnd f (mval f k) = k"
proof (cases "k = 0")
  case True
  then show ?thesis by (simp add: mval_0 rnd_def)
next
  case False
  define h where "h = hid f"
  define x where "x = mval f k"
  have x: "0 < x" using False by (simp add: x_def mval_pos)
  have h: "0 < h" by (simp add: h_def hid_pos)
  have bq: "nat (binade f x - emin f) * h + rne_r (x * 2 powi (int (prec f - 1) - binade f x)) = k"
  proof (cases "k < h")
    case True
    then have xk: "x = real k * 2 powi (emin f - int (prec f - 1))"
      by (simp add: x_def mval_def sig_def expo_def h_def)
    have "x < real h * 2 powi (emin f - int (prec f - 1))"
      unfolding xk using True by simp
    also have "\<dots> = 2 powi emin f"
      unfolding h_def real_hid by (subst power_int_add [symmetric]) simp_all
    finally have "x < 2 powi emin f" .
    with floor_log2_bounds(1) [OF x] have "2 powi \<lfloor>log 2 x\<rfloor> < (2::real) powi emin f" by simp
    then have "\<lfloor>log 2 x\<rfloor> < emin f" by (simp only: powi2_less_iff)
    then have b: "binade f x = emin f" by (simp add: binade_def)
    have "x * 2 powi (int (prec f - 1) - emin f) = real k * (2 powi (emin f - int (prec f - 1)) * 2 powi (int (prec f - 1) - emin f))"
      by (simp add: xk)
    also have "\<dots> = real k" by (subst power_int_add [symmetric]) simp_all
    finally show ?thesis by (simp add: b rne_r_of_nat)
  next
    case False
    define E where "E = k div h"
    define r where "r = k mod h"
    from False h have E: "1 \<le> E" by (simp add: E_def Suc_le_eq div_greater_zero_iff)
    have r: "r < h" using h by (simp add: r_def)
    have k: "k = E * h + r" by (simp add: E_def r_def)
    define e where "e = int E - 1 + emin f"
    have xk: "x = real (h + r) * 2 powi (e - int (prec f - 1))"
      using False by (simp add: x_def mval_def sig_def expo_def h_def E_def r_def e_def)
    have "2 powi e = real h * 2 powi (e - int (prec f - 1))"
      unfolding h_def real_hid by (subst power_int_add [symmetric]) simp_all
    also have "\<dots> \<le> x" unfolding xk by (intro mult_right_mono) simp_all
    finally have lo: "2 powi e \<le> x" .
    have "x < real (2 * h) * 2 powi (e - int (prec f - 1))"
      unfolding xk using r by (intro mult_strict_right_mono) simp_all
    also have "\<dots> = 2 * (real h * 2 powi (e - int (prec f - 1)))" by simp
    also have "real h * 2 powi (e - int (prec f - 1)) = 2 powi e"
      unfolding h_def real_hid by (subst power_int_add [symmetric]) simp_all
    finally have hi: "x < 2 powi (e + 1)" by (simp add: powi2_add1)
    from floor_log2_eq [OF x lo hi] E have b: "binade f x = e"
      by (simp add: binade_def e_def)
    have "x * 2 powi (int (prec f - 1) - e) = real (h + r) * (2 powi (e - int (prec f - 1)) * 2 powi (int (prec f - 1) - e))"
      by (simp add: xk)
    also have "\<dots> = real (h + r)" by (subst power_int_add [symmetric]) simp_all
    finally have "rne_r (x * 2 powi (int (prec f - 1) - e)) = h + r"
      by (simp only: rne_r_of_nat)
    moreover from E have "nat (e - emin f) = E - 1" by (simp add: e_def)
    moreover from E have "(E - 1) * h + (h + r) = E * h + r"
      by (cases E) simp_all
    ultimately show ?thesis by (simp add: b k)
  qed
  from x have "rnd f x = min k (inf_mag f)"
    unfolding rnd_def bq [unfolded h_def] by simp
  with assms show ?thesis by (simp add: x_def)
qed

section \<open>What the operations compute\<close>

lemma round_mag_le_inf: "round_mag f n d \<le> inf_mag f"
  by (simp add: round_mag_def round_at_def)

lemma round_scaled_le_inf: "round_scaled f n d e \<le> inf_mag f"
  by (simp add: round_scaled_def round_mag_le_inf)

lemma ssig_fval: "real_of_int (ssig f a) * 2 powi expo f (fp_mag a) = fval f a"
  by (simp add: ssig_def fval_def mval_def)

lemma shift_powi:
  assumes "e \<le> ea"
  shows "real_of_int (s * 2 ^ nat (ea - e)) * 2 powi e = real_of_int s * 2 powi ea"
proof -
  have "(2::real) ^ nat (ea - e) = 2 powi (ea - e)" using assms by (simp add: power_int_def)
  then have "real_of_int (s * 2 ^ nat (ea - e)) * 2 powi e
      = real_of_int s * (2 powi (ea - e) * 2 powi e)" by simp
  also have "2 powi (ea - e) * (2::real) powi e = 2 powi ea"
    by (subst power_int_add [symmetric]) simp_all
  finally show ?thesis .
qed

lemma rnd_0: "rnd f 0 = 0"
  by (simp add: rnd_def)

lemma fp_add_fin:
  assumes "is_fin f a" "is_fin f b"
  shows "fp_add f a b =
    (if fval f a + fval f b = 0 then Fp (fp_neg a \<and> fp_neg b) 0
     else Fp (fval f a + fval f b < 0) (rnd f \<bar>fval f a + fval f b\<bar>))"
proof -
  define ea where "ea = expo f (fp_mag a)"
  define eb where "eb = expo f (fp_mag b)"
  define e where "e = min ea eb"
  define s where "s = ssig f a * 2 ^ nat (ea - e) + ssig f b * 2 ^ nat (eb - e)"
  have "real_of_int s * 2 powi e
      = real_of_int (ssig f a * 2 ^ nat (ea - e)) * 2 powi e
        + real_of_int (ssig f b * 2 ^ nat (eb - e)) * 2 powi e"
    by (simp add: s_def algebra_simps)
  also have "real_of_int (ssig f a * 2 ^ nat (ea - e)) * 2 powi e = fval f a"
    using shift_powi [of e ea "ssig f a"] by (simp add: e_def ea_def ssig_fval)
  also have "real_of_int (ssig f b * 2 ^ nat (eb - e)) * 2 powi e = fval f b"
    using shift_powi [of e eb "ssig f b"] by (simp add: e_def eb_def ssig_fval)
  finally have v: "real_of_int s * 2 powi e = fval f a + fval f b" .
  then have z: "s = 0 \<longleftrightarrow> fval f a + fval f b = 0" by (metis mult_eq_0_iff of_int_eq_0_iff power_int_eq_0_iff zero_neq_numeral)
  have n: "s < 0 \<longleftrightarrow> fval f a + fval f b < 0"
  proof -
    have "0 < (2::real) powi e" by simp
    then show ?thesis unfolding v [symmetric]
      by (metis mult_less_0_iff not_less_iff_gr_or_eq of_int_less_0_iff)
  qed
  have "round_scaled f (nat \<bar>s\<bar>) 1 e = rnd f (real (nat \<bar>s\<bar>) / real 1 * 2 powi e)"
    by (rule round_scaled_link) simp
  also have "real (nat \<bar>s\<bar>) / real 1 * 2 powi e = \<bar>real_of_int s * 2 powi e\<bar>"
    by (simp add: abs_mult)
  finally have r: "round_scaled f (nat \<bar>s\<bar>) 1 e = rnd f \<bar>fval f a + fval f b\<bar>"
    by (simp only: v)
  from assms have "fp_add f a b = sum_round f (fp_neg a \<and> fp_neg b) s e"
    by (simp add: fp_add_def is_fin_def is_nan_def is_inf_def align_sum_def s_def e_def ea_def eb_def)
  then show ?thesis by (simp add: sum_round_def z n r del: One_nat_def)
qed

lemma fp_mul_fin:
  assumes "is_fin f a" "is_fin f b"
  shows "fp_mul f a b = Fp (fp_neg a \<noteq> fp_neg b) (rnd f (mval f (fp_mag a) * mval f (fp_mag b)))"
proof -
  have "round_scaled f (sig f (fp_mag a) * sig f (fp_mag b)) 1 (expo f (fp_mag a) + expo f (fp_mag b))
      = rnd f (real (sig f (fp_mag a) * sig f (fp_mag b)) / real 1
               * 2 powi (expo f (fp_mag a) + expo f (fp_mag b)))"
    by (rule round_scaled_link) simp
  also have "real (sig f (fp_mag a) * sig f (fp_mag b)) / real 1
               * 2 powi (expo f (fp_mag a) + expo f (fp_mag b))
      = mval f (fp_mag a) * mval f (fp_mag b)"
    by (simp add: mval_def power_int_add)
  finally show ?thesis using assms
    by (simp add: fp_mul_def is_fin_def is_nan_def is_inf_def del: One_nat_def)
qed

lemma sig_pos: "0 < k \<Longrightarrow> 0 < sig f k"
  by (simp add: sig_def hid_pos)

lemma fp_div_fin:
  assumes "is_fin f a" "is_fin f b" "\<not> is_zero b"
  shows "fp_div f a b = Fp (fp_neg a \<noteq> fp_neg b) (rnd f (mval f (fp_mag a) / mval f (fp_mag b)))"
proof -
  from assms(3) have "0 < sig f (fp_mag b)" by (simp add: is_zero_def sig_pos)
  then have "round_scaled f (sig f (fp_mag a)) (sig f (fp_mag b)) (expo f (fp_mag a) - expo f (fp_mag b))
      = rnd f (real (sig f (fp_mag a)) / real (sig f (fp_mag b))
               * 2 powi (expo f (fp_mag a) - expo f (fp_mag b)))"
    by (rule round_scaled_link)
  also have "real (sig f (fp_mag a)) / real (sig f (fp_mag b))
               * 2 powi (expo f (fp_mag a) - expo f (fp_mag b))
      = mval f (fp_mag a) / mval f (fp_mag b)"
    by (simp add: mval_def power_int_diff)
  finally show ?thesis using assms
    by (simp add: fp_div_def is_fin_def is_nan_def is_inf_def)
qed

lemma fp_cvt_fin:
  assumes "is_fin f a"
  shows "fp_cvt f g a = Fp (fp_neg a) (rnd g (mval f (fp_mag a)))"
proof -
  have "round_scaled g (sig f (fp_mag a)) 1 (expo f (fp_mag a))
      = rnd g (real (sig f (fp_mag a)) / real 1 * 2 powi expo f (fp_mag a))"
    by (rule round_scaled_link) simp
  then show ?thesis using assms
    by (simp add: fp_cvt_def is_fin_def is_nan_def is_inf_def mval_def del: One_nat_def)
qed

subsection \<open>Values of results\<close>

lemma rval_0: "rval f 0 = 0"
  by (simp add: rval_def rnd_0 mval_0)

lemma rval_mono:
  assumes "x \<le> y"
  shows "rval f x \<le> rval f y"
proof -
  consider "y < 0" | "x < 0" "0 \<le> y" | "0 \<le> x" using assms by linarith
  then show ?thesis
  proof cases
    case 1
    with assms have "rnd f (- y) \<le> rnd f (- x)" by (intro rnd_mono) simp
    with 1 assms show ?thesis by (simp add: rval_def mval_le_iff)
  next
    case 2
    then show ?thesis
      using mval_nonneg [of f "rnd f (- x)"] mval_nonneg [of f "rnd f y"] by (simp add: rval_def)
  next
    case 3
    with assms have "rnd f x \<le> rnd f y" by (intro rnd_mono)
    with 3 assms show ?thesis by (simp add: rval_def mval_le_iff)
  qed
qed

lemma rval_minus: "rval f (- x) = - rval f x"
  by (cases "x = 0") (auto simp: rval_def rnd_0 mval_0)

lemma rval_mval: "k \<le> inf_mag f \<Longrightarrow> rval f (mval f k) = mval f k"
  using mval_nonneg [of f k] by (simp add: rval_def rnd_exact not_less [symmetric])

lemma rval_fval: "fp_mag a \<le> inf_mag f \<Longrightarrow> rval f (fval f a) = fval f a"
  by (simp add: fval_def rval_minus rval_mval)

lemma rval_abs_le:
  assumes "\<bar>x\<bar> \<le> mval f K" "K \<le> inf_mag f"
  shows "\<bar>rval f x\<bar> \<le> mval f K"
proof -
  from assms(1) have "- mval f K \<le> x" "x \<le> mval f K" by linarith+
  then have "rval f (- mval f K) \<le> rval f x" "rval f x \<le> rval f (mval f K)"
    by (auto intro: rval_mono)
  with assms(2) show ?thesis by (simp add: rval_minus rval_mval)
qed

lemma rval_nonneg: "0 \<le> x \<Longrightarrow> 0 \<le> rval f x"
  using rval_mono [of 0 x f] by (simp add: rval_0)

lemma rval_nonpos: "x \<le> 0 \<Longrightarrow> rval f x \<le> 0"
  using rval_mono [of x 0 f] by (simp add: rval_0)

lemma fval_Fp_rnd: "fval f (Fp (x < 0) (rnd f \<bar>x\<bar>)) = rval f x"
  by (simp add: fval_def rval_def)

lemma fval_add:
  assumes "is_fin f a" "is_fin f b"
  shows "fval f (fp_add f a b) = rval f (fval f a + fval f b)"
  unfolding fp_add_fin [OF assms]
  by (simp add: fval_Fp_rnd) (simp add: fval_def mval_0 rval_0)

lemma fval_sub:
  assumes "is_fin f a" "is_fin f b"
  shows "fval f (fp_sub f a b) = rval f (fval f a - fval f b)"
proof -
  have "is_fin f (fp_uminus b)" using assms(2) by (simp add: is_fin_def fp_uminus_def)
  from fval_add [OF assms(1) this] show ?thesis
    by (simp add: fp_sub_def fval_def fp_uminus_def)
qed

lemma fval_mul:
  assumes "is_fin f a" "is_fin f b"
  shows "fval f (fp_mul f a b) = rval f (fval f a * fval f b)"
proof -
  define p where "p = mval f (fp_mag a) * mval f (fp_mag b)"
  have p: "0 \<le> p" by (simp add: p_def mval_nonneg)
  have "fval f a * fval f b = (if fp_neg a \<noteq> fp_neg b then - p else p)"
    by (simp add: fval_def p_def)
  moreover have "fval f (fp_mul f a b) = (if fp_neg a \<noteq> fp_neg b then - mval f (rnd f p) else mval f (rnd f p))"
    by (simp add: fp_mul_fin [OF assms] fval_def p_def)
  moreover have "rval f p = mval f (rnd f p)" using p by (simp add: rval_def not_less [symmetric])
  ultimately show ?thesis by (simp add: rval_minus)
qed

lemma fval_div:
  assumes "is_fin f a" "is_fin f b" "\<not> is_zero b"
  shows "fval f (fp_div f a b) = rval f (fval f a / fval f b)"
proof -
  define p where "p = mval f (fp_mag a) / mval f (fp_mag b)"
  have p: "0 \<le> p" by (simp add: p_def mval_nonneg)
  have "fval f a / fval f b = (if fp_neg a \<noteq> fp_neg b then - p else p)"
    by (simp add: fval_def p_def)
  moreover have "fval f (fp_div f a b) = (if fp_neg a \<noteq> fp_neg b then - mval f (rnd f p) else mval f (rnd f p))"
    by (simp add: fp_div_fin [OF assms] fval_def p_def)
  moreover have "rval f p = mval f (rnd f p)" using p by (simp add: rval_def not_less [symmetric])
  ultimately show ?thesis by (simp add: rval_minus)
qed

lemma fval_cvt:
  assumes "is_fin f a"
  shows "fval g (fp_cvt f g a) = rval g (fval f a)"
proof -
  have "rval g (mval f (fp_mag a)) = mval g (rnd g (mval f (fp_mag a)))"
    using mval_nonneg [of f "fp_mag a"] by (simp add: rval_def not_less [symmetric])
  then show ?thesis by (simp add: fp_cvt_fin [OF assms] fval_def rval_minus)
qed

lemma not_nan_add: "is_fin f a \<Longrightarrow> is_fin f b \<Longrightarrow> \<not> is_nan f (fp_add f a b)"
  by (simp add: fp_add_fin is_nan_def not_less rnd_le_inf)

lemma not_nan_sub: "is_fin f a \<Longrightarrow> is_fin f b \<Longrightarrow> \<not> is_nan f (fp_sub f a b)"
  unfolding fp_sub_def by (rule not_nan_add) (simp_all add: is_fin_def fp_uminus_def)

lemma not_nan_mul: "is_fin f a \<Longrightarrow> is_fin f b \<Longrightarrow> \<not> is_nan f (fp_mul f a b)"
  by (simp add: fp_mul_fin is_nan_def not_less rnd_le_inf)

lemma not_nan_div: "is_fin f a \<Longrightarrow> is_fin f b \<Longrightarrow> \<not> is_zero b \<Longrightarrow> \<not> is_nan f (fp_div f a b)"
  by (simp add: fp_div_fin is_nan_def not_less rnd_le_inf)

lemma not_nan_cvt: "is_fin f a \<Longrightarrow> \<not> is_nan g (fp_cvt f g a)"
  by (simp add: fp_cvt_fin is_nan_def not_less rnd_le_inf)

lemma abs_fval: "\<bar>fval f a\<bar> = mval f (fp_mag a)"
  using mval_nonneg [of f "fp_mag a"] by (simp add: fval_def)

lemma is_fin_iff: "is_fin f a \<longleftrightarrow> \<bar>fval f a\<bar> < mval f (inf_mag f)"
  by (simp add: is_fin_def abs_fval mval_less_iff)

lemma is_fin_bound:
  assumes "\<bar>fval f a\<bar> \<le> mval f K" "K < inf_mag f"
  shows "is_fin f a"
  using assms mval_strict_mono [of K "inf_mag f" f] by (simp add: is_fin_iff)

lemma is_zero_iff: "is_zero a \<longleftrightarrow> fval f a = 0"
  using mval_eq_iff [of f "fp_mag a" 0] by (auto simp: is_zero_def fval_def mval_0)

subsection \<open>Comparisons\<close>

lemma ordv_less_iff: "ordv a < ordv b \<longleftrightarrow> fval f a < fval f b"
proof -
  have "mval f j = 0 \<longleftrightarrow> j = 0" for j using mval_eq_iff [of f j 0] by (simp add: mval_0)
  moreover have "0 \<le> mval f j" for j by (rule mval_nonneg)
  moreover have "mval f i < mval f j \<longleftrightarrow> i < j" for i j by (rule mval_less_iff)
  ultimately show ?thesis
    unfolding ordv_def fval_def
    by (cases "fp_neg a"; cases "fp_neg b") (simp_all, (smt (verit) of_nat_0_le_iff of_nat_eq_0_iff)+)
qed

lemma ordv_le_iff: "ordv a \<le> ordv b \<longleftrightarrow> fval f a \<le> fval f b"
  using ordv_less_iff [of b a f] by (simp add: not_less [symmetric])

lemma ordv_eq_iff: "ordv a = ordv b \<longleftrightarrow> fval f a = fval f b"
  using ordv_le_iff [of a b f] ordv_le_iff [of b a f] by (auto simp: order_class.order_eq_iff)

section \<open>The \<open>float\<close> operations\<close>

lemma b32: "prec binary32 = 24" "expw binary32 = 8" "hid binary32 = 8388608"
  "inf_mag binary32 = 2139095040" "emin binary32 = - 126" "bias binary32 = 127"
  by (simp_all add: binary32_def hid_def inf_mag_def emin_def bias_def)

lemma b64: "prec binary64 = 53" "expw binary64 = 11" "hid binary64 = 4503599627370496"
  "inf_mag binary64 = 9218868437227405312" "emin binary64 = - 1022" "bias binary64 = 1023"
  by (simp_all add: binary64_def hid_def inf_mag_def emin_def bias_def)

lemma fp_add_mag:
  assumes "fp_mag a < N" "fp_mag b < N" "inf_mag f + hid f div 2 < N"
  shows "fp_mag (fp_add f a b) < N"
proof -
  have "round_scaled f n d e < N" for n d e
    using round_scaled_le_inf [of f n d e] assms(3) by simp
  with assms show ?thesis
    by (auto simp: fp_add_def align_sum_def sum_round_def qnan_def)
qed

lemma fp_mul_mag:
  assumes "inf_mag f + hid f div 2 < N"
  shows "fp_mag (fp_mul f a b) < N"
proof -
  have "round_scaled f n d e < N" for n d e
    using round_scaled_le_inf [of f n d e] assms by simp
  with assms show ?thesis
    by (auto simp: fp_mul_def qnan_def infty_def)
qed

lemma fp_div_mag:
  assumes "inf_mag f + hid f div 2 < N"
  shows "fp_mag (fp_div f a b) < N"
proof -
  have "round_scaled f n d e < N" for n d e
    using round_scaled_le_inf [of f n d e] assms by simp
  with assms show ?thesis
    by (auto simp: fp_div_def qnan_def infty_def)
qed

lemma fp_cvt_mag:
  assumes "inf_mag g + hid g div 2 < N"
  shows "fp_mag (fp_cvt f g a) < N"
proof -
  have "round_scaled g n d e < N" for n d e
    using round_scaled_le_inf [of g n d e] assms by simp
  with assms show ?thesis
    by (auto simp: fp_cvt_def qnan_def infty_def)
qed

lemma unpack_fadd: "unpack (fadd a b) = fp_add binary32 (unpack a) (unpack b)"
  unfolding fadd_def
  by (intro unpack_pack fp_add_mag unpack_mag_lt) (simp add: b32)

lemma unpack_fsub: "unpack (fsub a b) = fp_sub binary32 (unpack a) (unpack b)"
  unfolding fsub_def fp_sub_def
  using unpack_mag_lt [of b]
  by (intro unpack_pack fp_add_mag unpack_mag_lt) (simp_all add: b32 fp_uminus_def)

lemma unpack_fmul: "unpack (fmul a b) = fp_mul binary32 (unpack a) (unpack b)"
  unfolding fmul_def by (intro unpack_pack fp_mul_mag) (simp add: b32)

lemma unpack_fdiv: "unpack (fdiv a b) = fp_div binary32 (unpack a) (unpack b)"
  unfolding fdiv_def by (intro unpack_pack fp_div_mag) (simp add: b32)

lemma unpack_to_float: "unpack (to_float x) = fp_cvt binary64 binary32 x"
  unfolding to_float_def by (intro unpack_pack fp_cvt_mag) (simp add: b32)

lemma fin32_not_nan: "fin32 a \<Longrightarrow> \<not> nan32 a"
  by (simp add: fin32_def nan32_def is_fin_def is_nan_def)

lemma nan32_fneg [simp]: "nan32 (fneg a) = nan32 a"
  by (simp add: nan32_def unpack_fneg is_nan_def fp_uminus_def)

lemma fin32_fneg [simp]: "fin32 (fneg a) = fin32 a"
  by (simp add: fin32_def unpack_fneg is_fin_def fp_uminus_def)

lemma nan32_fabs [simp]: "nan32 (fabs a) = nan32 a"
  by (simp add: nan32_def unpack_fabs is_nan_def fp_abs_def)

lemma fin32_fabs [simp]: "fin32 (fabs a) = fin32 a"
  by (simp add: fin32_def unpack_fabs is_fin_def fp_abs_def)

lemma valf_fneg [simp]: "valf (fneg a) = - valf a"
  by (simp add: valf_def unpack_fneg fval_def fp_uminus_def)

lemma valf_fabs [simp]: "valf (fabs a) = \<bar>valf a\<bar>"
  by (simp add: valf_def unpack_fabs abs_fval) (simp add: fval_def fp_abs_def)

lemma fneg_fneg [simp]: "fneg (fneg a) = a"
proof -
  have "fneg (fneg a) = pack (fp_uminus (fp_uminus (unpack a)))"
    by (simp add: fneg_def [of "fneg a"] unpack_fneg)
  then show ?thesis by (simp add: fp_uminus_def pack_unpack)
qed

lemma flt_iff: "flt a b \<longleftrightarrow> \<not> nan32 a \<and> \<not> nan32 b \<and> valf a < valf b"
  by (simp add: flt_def fp_lt_def nan32_def valf_def ordv_less_iff [of _ _ binary32])

lemma fle_iff: "fle a b \<longleftrightarrow> \<not> nan32 a \<and> \<not> nan32 b \<and> valf a \<le> valf b"
  by (simp add: fle_def fp_le_def nan32_def valf_def ordv_le_iff [of _ _ binary32])

lemma feq_iff: "feq a b \<longleftrightarrow> \<not> nan32 a \<and> \<not> nan32 b \<and> valf a = valf b"
  by (simp add: feq_def fp_eq_def nan32_def valf_def ordv_eq_iff [of _ _ binary32])

lemma valf_fadd: "fin32 a \<Longrightarrow> fin32 b \<Longrightarrow> valf (fadd a b) = rval binary32 (valf a + valf b)"
  by (simp add: valf_def fin32_def unpack_fadd fval_add)

lemma valf_fsub: "fin32 a \<Longrightarrow> fin32 b \<Longrightarrow> valf (fsub a b) = rval binary32 (valf a - valf b)"
  by (simp add: valf_def fin32_def unpack_fsub fval_sub)

lemma valf_fmul: "fin32 a \<Longrightarrow> fin32 b \<Longrightarrow> valf (fmul a b) = rval binary32 (valf a * valf b)"
  by (simp add: valf_def fin32_def unpack_fmul fval_mul)

lemma valf_fdiv:
  "fin32 a \<Longrightarrow> fin32 b \<Longrightarrow> valf b \<noteq> 0 \<Longrightarrow> valf (fdiv a b) = rval binary32 (valf a / valf b)"
  by (simp add: valf_def fin32_def unpack_fdiv fval_div is_zero_iff [of _ binary32])

lemma not_nan_fadd: "fin32 a \<Longrightarrow> fin32 b \<Longrightarrow> \<not> nan32 (fadd a b)"
  by (simp add: nan32_def fin32_def unpack_fadd not_nan_add)

lemma not_nan_fsub: "fin32 a \<Longrightarrow> fin32 b \<Longrightarrow> \<not> nan32 (fsub a b)"
  by (simp add: nan32_def fin32_def unpack_fsub not_nan_sub)

lemma not_nan_fmul: "fin32 a \<Longrightarrow> fin32 b \<Longrightarrow> \<not> nan32 (fmul a b)"
  by (simp add: nan32_def fin32_def unpack_fmul not_nan_mul)

lemma not_nan_fdiv: "fin32 a \<Longrightarrow> fin32 b \<Longrightarrow> valf b \<noteq> 0 \<Longrightarrow> \<not> nan32 (fdiv a b)"
  by (simp add: nan32_def fin32_def valf_def unpack_fdiv not_nan_div is_zero_iff [of _ binary32])

text \<open>The largest finite \<open>float\<close> is \<open>2 ^ 128 - 2 ^ 104\<close>; \<open>2 ^ 127\<close> is a convenient bound.\<close>

lemma mval32_2p127: "mval binary32 2130706432 = 2 ^ 127"
  by (simp add: mval_def sig_def expo_def b32 power_int_def)

lemma fin32_iff: "fin32 a \<longleftrightarrow> \<bar>valf a\<bar> < mval binary32 (inf_mag binary32)"
  by (simp add: fin32_def valf_def is_fin_iff)

lemma fin32_bound: "\<bar>valf a\<bar> \<le> 2 ^ 127 \<Longrightarrow> fin32 a"
  unfolding fin32_def valf_def mval32_2p127 [symmetric]
  by (erule is_fin_bound) (simp add: b32)

lemma rval32_abs_le: "\<bar>x\<bar> \<le> 2 ^ 127 \<Longrightarrow> \<bar>rval binary32 x\<bar> \<le> 2 ^ 127"
  unfolding mval32_2p127 [symmetric] by (erule rval_abs_le) (simp add: b32)

lemma rval32_valf: "\<not> nan32 a \<Longrightarrow> rval binary32 (valf a) = valf a"
  by (simp add: valf_def nan32_def is_nan_def rval_fval)

lemma rval32_le: "x \<le> valf c \<Longrightarrow> \<not> nan32 c \<Longrightarrow> rval binary32 x \<le> valf c"
  using rval_mono [of x "valf c" binary32] by (simp add: rval32_valf)

lemma rval32_ge: "valf c \<le> x \<Longrightarrow> \<not> nan32 c \<Longrightarrow> valf c \<le> rval binary32 x"
  using rval_mono [of "valf c" x binary32] by (simp add: rval32_valf)

section \<open>Signs\<close>

lemma fabs_fneg [simp]: "fabs (fneg a) = fabs a"
  by (simp add: fabs_def unpack_fneg fp_abs_def fp_uminus_def)

lemma fp_mul_uminus_uminus: "fp_mul f (fp_uminus a) (fp_uminus a) = fp_mul f a a"
  by (simp add: fp_mul_def fp_uminus_def is_nan_def is_inf_def is_zero_def)

lemma fmul_fneg_fneg [simp]: "fmul (fneg a) (fneg a) = fmul a a"
  by (simp add: fmul_def unpack_fneg fp_mul_uminus_uminus)

lemma unpack_inj: "unpack a = unpack b \<Longrightarrow> a = b"
  by (metis pack_unpack)

lemma fmul_fneg_left:
  assumes "fin32 a" "fin32 b"
  shows "fmul (fneg a) b = fneg (fmul a b)"
proof (rule unpack_inj)
  from assms have f: "is_fin binary32 (fp_uminus (unpack a))" "is_fin binary32 (unpack a)"
    "is_fin binary32 (unpack b)"
    by (simp_all add: fin32_def is_fin_def fp_uminus_def)
  have "unpack (fmul (fneg a) b) = fp_mul binary32 (fp_uminus (unpack a)) (unpack b)"
    by (simp add: unpack_fmul unpack_fneg)
  moreover have "unpack (fneg (fmul a b)) = fp_uminus (fp_mul binary32 (unpack a) (unpack b))"
    by (simp add: unpack_fmul unpack_fneg)
  ultimately show "unpack (fmul (fneg a) b) = unpack (fneg (fmul a b))"
    using f by (simp add: fp_mul_fin) (simp add: fp_uminus_def)
qed

lemma fmul_fneg_right:
  assumes "fin32 a" "fin32 b"
  shows "fmul a (fneg b) = fneg (fmul a b)"
proof (rule unpack_inj)
  from assms have f: "is_fin binary32 (fp_uminus (unpack b))" "is_fin binary32 (unpack a)"
    "is_fin binary32 (unpack b)"
    by (simp_all add: fin32_def is_fin_def fp_uminus_def)
  have "unpack (fmul a (fneg b)) = fp_mul binary32 (unpack a) (fp_uminus (unpack b))"
    by (simp add: unpack_fmul unpack_fneg)
  moreover have "unpack (fneg (fmul a b)) = fp_uminus (fp_mul binary32 (unpack a) (unpack b))"
    by (simp add: unpack_fmul unpack_fneg)
  ultimately show "unpack (fmul a (fneg b)) = unpack (fneg (fmul a b))"
    using f by (simp add: fp_mul_fin) (simp add: fp_uminus_def)
qed

lemma valf_0 [simp]: "valf 0 = 0"
  by (simp add: valf_def unpack_0 fval_def mval_0)

lemma not_nan32_0 [simp]: "\<not> nan32 0"
  by (simp add: nan32_def unpack_0 is_nan_def)

lemma fin32_0 [simp]: "fin32 0"
  by (simp add: fin32_def unpack_0 is_fin_def b32)

lemma flt_fneg_0: "flt (fneg x) 0 \<longleftrightarrow> flt 0 x"
  by (simp add: flt_iff)

section \<open>Bounds on results\<close>

lemma bndD: "bnd a M \<Longrightarrow> fin32 a" "bnd a M \<Longrightarrow> \<bar>valf a\<bar> \<le> M"
  by (simp_all add: bnd_def)

lemma bnd_mono: "bnd a M \<Longrightarrow> M \<le> N \<Longrightarrow> bnd a N"
  by (simp add: bnd_def)

lemma bnd_fneg [simp]: "bnd (fneg a) M = bnd a M"
  by (simp add: bnd_def)

lemma bnd_fabs [simp]: "bnd (fabs a) M = bnd a M"
  by (simp add: bnd_def)

lemma mval32_pow2:
  assumes "n \<le> 127"
  shows "mval binary32 ((n + 127) * 8388608) = 2 ^ n"
proof -
  have "(2::real) ^ n = 2 powi int n" by (simp add: power_int_def)
  also have "\<dots> = 8388608 * 2 powi (int n - 23)"
    using power_int_add [of "2::real" 23 "int n - 23"] by (simp add: power_int_def)
  finally show ?thesis
    by (simp add: mval_def sig_def expo_def b32 algebra_simps)
qed

lemma rval32_pow2_le:
  assumes "\<bar>x\<bar> \<le> 2 ^ n" "n \<le> 127"
  shows "\<bar>rval binary32 x\<bar> \<le> 2 ^ n"
proof -
  from assms have "\<bar>x\<bar> \<le> mval binary32 ((n + 127) * 8388608)"
    by (simp only: mval32_pow2)
  moreover from assms(2) have "(n + 127) * 8388608 \<le> inf_mag binary32" by (simp add: b32)
  ultimately have "\<bar>rval binary32 x\<bar> \<le> mval binary32 ((n + 127) * 8388608)"
    by (rule rval_abs_le)
  with assms(2) show ?thesis by (simp only: mval32_pow2)
qed

lemma bnd_rval:
  assumes "\<not> nan32 r" "valf r = rval binary32 x" "\<bar>x\<bar> \<le> 2 ^ n" "n \<le> 127"
  shows "bnd r (2 ^ n)"
proof -
  from assms have le: "\<bar>valf r\<bar> \<le> 2 ^ n" by (simp add: rval32_pow2_le)
  also have "(2::real) ^ n \<le> 2 ^ 127" using assms(4) by (intro power_increasing) simp_all
  finally have "fin32 r" by (rule fin32_bound)
  with le show ?thesis by (simp add: bnd_def)
qed

lemma bnd_fadd:
  assumes "bnd a M" "bnd b N" "M + N \<le> 2 ^ n" "n \<le> 127"
  shows "bnd (fadd a b) (2 ^ n)"
proof (rule bnd_rval)
  from assms show "\<not> nan32 (fadd a b)" "valf (fadd a b) = rval binary32 (valf a + valf b)"
    by (simp_all add: bnd_def not_nan_fadd valf_fadd)
  from assms show "\<bar>valf a + valf b\<bar> \<le> 2 ^ n" unfolding bnd_def by linarith
qed fact

lemma bnd_fsub:
  assumes "bnd a M" "bnd b N" "M + N \<le> 2 ^ n" "n \<le> 127"
  shows "bnd (fsub a b) (2 ^ n)"
proof (rule bnd_rval)
  from assms show "\<not> nan32 (fsub a b)" "valf (fsub a b) = rval binary32 (valf a - valf b)"
    by (simp_all add: bnd_def not_nan_fsub valf_fsub)
  from assms show "\<bar>valf a - valf b\<bar> \<le> 2 ^ n" unfolding bnd_def by linarith
qed fact

lemma bnd_fmul:
  assumes "bnd a M" "bnd b N" "M * N \<le> 2 ^ n" "n \<le> 127"
  shows "bnd (fmul a b) (2 ^ n)"
proof (rule bnd_rval)
  from assms show "\<not> nan32 (fmul a b)" "valf (fmul a b) = rval binary32 (valf a * valf b)"
    by (simp_all add: bnd_def not_nan_fmul valf_fmul)
  from assms have "\<bar>valf a\<bar> * \<bar>valf b\<bar> \<le> M * N"
    by (intro mult_mono) (simp_all add: bnd_def, linarith)
  with assms(3) show "\<bar>valf a * valf b\<bar> \<le> 2 ^ n" by (simp add: abs_mult)
qed fact

lemma bnd_fdiv:
  assumes "bnd a M" "fin32 b" "L \<le> \<bar>valf b\<bar>" "0 < L" "M \<le> 2 ^ n * L" "n \<le> 127"
  shows "bnd (fdiv a b) (2 ^ n)"
proof (rule bnd_rval)
  from assms have nz: "valf b \<noteq> 0" by auto
  with assms show "\<not> nan32 (fdiv a b)" "valf (fdiv a b) = rval binary32 (valf a / valf b)"
    by (simp_all add: bnd_def not_nan_fdiv valf_fdiv)
  from assms have "\<bar>valf a\<bar> \<le> 2 ^ n * \<bar>valf b\<bar>"
    by (smt (verit) bnd_def mult_left_mono zero_le_power)
  with nz show "\<bar>valf a / valf b\<bar> \<le> 2 ^ n"
    by (simp add: field_simps)
qed fact

section \<open>The hyperbolic functions under a change of sign\<close>

lemmas val_ev = bnd_def valf_def fin32_def nan32_def unpack_def fval_def mval_def sig_def expo_def
  is_fin_def is_nan_def b32 power_int_def power_one_over

lemma lit_bits:
  "flit 0 1 = 0" "flit 1 1 = 0x3F800000" "flit 2 1 = 0x40000000" "flit 5 10 = 0x3F000000"
  "flit 0 (Suc 0) = 0" "flit (Suc 0) (Suc 0) = 0x3F800000" "flit 2 (Suc 0) = 0x40000000"
  by (simp_all add: rnd_ev fp_ev fl_ev)

lemma small_bnd:
  assumes "flt (fabs x) (flit 5 10)"
  shows "bnd x (1 / 2)"
proof -
  have "valf (flit 5 10) = 1 / 2" by (simp add: lit_bits val_ev)
  with assms have "\<not> nan32 x" "\<bar>valf x\<bar> \<le> 1 / 2" by (simp_all add: flt_iff)
  moreover from this have "fin32 x" by (intro fin32_bound) simp
  ultimately show ?thesis by (simp add: bnd_def)
qed

lemma square_bnd:
  assumes "bnd x (1 / 2)"
  shows "bnd (fmul x x) 1"
  using bnd_fmul [OF assms assms, of 0] by simp

lemma sinh_poly_fin:
  assumes "bnd x2 1"
  shows "fin32 (fadd (flit 1 1)
           (fmul x2 (fadd (fdiv (flit 1 1) (flit 6 1))
              (fmul x2 (fadd (fdiv (flit 1 1) (flit 120 1)) (fdiv x2 (flit 5040 1)))))))"
proof -
  have c: "bnd (flit 1 1) 1" "bnd (fdiv (flit 1 1) (flit 6 1)) 1"
    "bnd (fdiv (flit 1 1) (flit 120 1)) 1"
    "fin32 (flit 5040 1)" "5040 \<le> \<bar>valf (flit 5040 1)\<bar>"
    by (simp_all add: rnd_ev fp_ev fl_ev) (simp_all add: val_ev)
  have "bnd (fdiv x2 (flit 5040 1)) (2 ^ 0)"
    using assms c(4,5) by (rule bnd_fdiv) simp_all
  from bnd_fadd [OF c(3) this, of 1]
  have "bnd (fadd (fdiv (flit 1 1) (flit 120 1)) (fdiv x2 (flit 5040 1))) (2 ^ 1)" by simp
  from bnd_fmul [OF assms this, of 1]
  have "bnd (fmul x2 (fadd (fdiv (flit 1 1) (flit 120 1)) (fdiv x2 (flit 5040 1)))) (2 ^ 1)"
    by simp
  from bnd_fadd [OF c(2) this, of 2]
  have "bnd (fadd (fdiv (flit 1 1) (flit 6 1))
          (fmul x2 (fadd (fdiv (flit 1 1) (flit 120 1)) (fdiv x2 (flit 5040 1))))) (2 ^ 2)"
    by simp
  from bnd_fmul [OF assms this, of 2]
  have "bnd (fmul x2 (fadd (fdiv (flit 1 1) (flit 6 1))
          (fmul x2 (fadd (fdiv (flit 1 1) (flit 120 1)) (fdiv x2 (flit 5040 1)))))) (2 ^ 2)"
    by simp
  from bnd_fadd [OF c(1) this, of 3] show ?thesis by (simp add: bnd_def)
qed

lemma nan32_qnan: "nan32 (pack (qnan binary32))"
  by (simp add: nan32_def qnan_def pack_def unpack_def is_nan_def b32)

lemma nan32_fmul: "nan32 a \<Longrightarrow> nan32 (fmul a b)"
  using nan32_qnan by (simp add: nan32_def fmul_def fp_mul_def)

lemma nan32_fadd: "nan32 a \<Longrightarrow> nan32 (fadd a b)"
  using nan32_qnan by (simp add: nan32_def fadd_def fp_add_def)

lemma f2i_nan: "nan32 a \<Longrightarrow> f2i a = None"
  by (simp add: f2i_def nan32_def is_nan_def is_fin_def)

lemma exp_fm_nan:
  assumes "nan32 x"
  shows "exp_fm x = None"
proof -
  from assms have "\<not> flt (flit 88 1) x" "\<not> flt x (fneg (flit 87 1))" by (simp_all add: flt_iff)
  moreover have "f2i (fadd (fmul x c) d) = None" for c d
    using assms by (intro f2i_nan nan32_fadd nan32_fmul)
  ultimately show ?thesis by (simp add: exp_fm_def Let_def)
qed

lemma not_small_cases:
  assumes "\<not> flt (fabs x) (flit 5 10)"
  shows "nan32 x \<or> flt x 0 \<and> \<not> flt 0 x \<or> flt 0 x \<and> \<not> flt x 0"
proof -
  have "valf (flit 5 10) = 1 / 2" "\<not> nan32 (flit 5 10)" by (simp_all add: lit_bits val_ev)
  with assms show ?thesis by (auto simp: flt_iff)
qed

lemma sinh_fm_odd: "sinh_fm (fneg x) = map_option fneg (sinh_fm x)"
proof (cases "flt (fabs x) (flit 5 10)")
  case True
  from small_bnd [OF True] have x: "fin32 x" by (rule bndD)
  from sinh_poly_fin [OF square_bnd [OF small_bnd [OF True]]] x True
  show ?thesis by (simp add: sinh_fm_def Let_def fmul_fneg_left)
next
  case False
  from not_small_cases [OF False] show ?thesis
  proof (elim disjE conjE)
    assume "nan32 x"
    then have "exp_fm x = None" "exp_fm (fneg x) = None" by (simp_all add: exp_fm_nan)
    with False show ?thesis by (simp add: sinh_fm_def Let_def lit_bits)
  next
    assume "flt x 0" "\<not> flt 0 x"
    with False show ?thesis
      by (cases "exp_fm (fneg x)") (simp_all add: sinh_fm_def Let_def lit_bits flt_fneg_0)
  next
    assume "flt 0 x" "\<not> flt x 0"
    with False show ?thesis
      by (cases "exp_fm x") (simp_all add: sinh_fm_def Let_def lit_bits flt_fneg_0)
  qed
qed

lemma cosh_fm_even: "cosh_fm (fneg x) = cosh_fm x"
  by (simp add: cosh_fm_def)

lemma asinh_poly_fin:
  assumes "bnd x2 1"
  shows "fin32 (fsub (flit 1 1)
           (fmul x2 (fsub (fdiv (flit 1 1) (flit 6 1))
              (fmul x2 (fsub (fdiv (flit 3 1) (flit 40 1))
                 (fdiv (fmul x2 (flit 15 1)) (flit 336 1)))))))"
proof -
  have c: "bnd (flit 1 1) 1" "bnd (fdiv (flit 1 1) (flit 6 1)) 1"
    "bnd (fdiv (flit 3 1) (flit 40 1)) 1" "bnd (flit 15 1) 16"
    "fin32 (flit 336 1)" "336 \<le> \<bar>valf (flit 336 1)\<bar>"
    by (simp_all add: rnd_ev fp_ev fl_ev) (simp_all add: val_ev)
  from bnd_fmul [OF assms c(4), of 4] have "bnd (fmul x2 (flit 15 1)) (2 ^ 4)" by simp
  then have "bnd (fdiv (fmul x2 (flit 15 1)) (flit 336 1)) (2 ^ 0)"
    using c(5,6) by (rule bnd_fdiv) simp_all
  from bnd_fsub [OF c(3) this, of 1]
  have "bnd (fsub (fdiv (flit 3 1) (flit 40 1)) (fdiv (fmul x2 (flit 15 1)) (flit 336 1))) (2 ^ 1)"
    by simp
  from bnd_fmul [OF assms this, of 1]
  have "bnd (fmul x2 (fsub (fdiv (flit 3 1) (flit 40 1))
          (fdiv (fmul x2 (flit 15 1)) (flit 336 1)))) (2 ^ 1)"
    by simp
  from bnd_fsub [OF c(2) this, of 2]
  have "bnd (fsub (fdiv (flit 1 1) (flit 6 1)) (fmul x2 (fsub (fdiv (flit 3 1) (flit 40 1))
          (fdiv (fmul x2 (flit 15 1)) (flit 336 1))))) (2 ^ 2)"
    by simp
  from bnd_fmul [OF assms this, of 2]
  have "bnd (fmul x2 (fsub (fdiv (flit 1 1) (flit 6 1)) (fmul x2 (fsub (fdiv (flit 3 1) (flit 40 1))
          (fdiv (fmul x2 (flit 15 1)) (flit 336 1)))))) (2 ^ 2)"
    by simp
  from bnd_fsub [OF c(1) this, of 3] show ?thesis by (simp add: bnd_def)
qed

lemma asinh_odd:
  assumes "\<not> nan32 x"
  shows "asinh (fneg x) = fneg (asinh x)"
proof (cases "flt (fabs x) (flit 5 10)")
  case True
  from small_bnd [OF True] have x: "fin32 x" by (rule bndD)
  from asinh_poly_fin [OF square_bnd [OF small_bnd [OF True]]] x True
  show ?thesis by (simp add: asinh_def Let_def fmul_fneg_left)
next
  case False
  from not_small_cases [OF False] assms
  have "flt x 0 \<and> \<not> flt 0 x \<or> flt 0 x \<and> \<not> flt x 0" by simp
  with False show ?thesis
    by (auto simp: asinh_def Let_def lit_bits flt_fneg_0)
qed

lemma atanh_poly_fin:
  assumes "bnd x2 1"
  shows "fin32 (fadd (flit 1 1)
           (fmul x2 (fadd (fdiv (flit 1 1) (flit 3 1))
              (fmul x2 (fadd (fdiv (flit 2 1) (flit 15 1))
                 (fdiv (fmul x2 (flit 17 1)) (flit 315 1)))))))"
proof -
  have c: "bnd (flit 1 1) 1" "bnd (fdiv (flit 1 1) (flit 3 1)) 1"
    "bnd (fdiv (flit 2 1) (flit 15 1)) 1" "bnd (flit 17 1) 32"
    "fin32 (flit 315 1)" "315 \<le> \<bar>valf (flit 315 1)\<bar>"
    by (simp_all add: rnd_ev fp_ev fl_ev) (simp_all add: val_ev)
  from bnd_fmul [OF assms c(4), of 5] have "bnd (fmul x2 (flit 17 1)) (2 ^ 5)" by simp
  then have "bnd (fdiv (fmul x2 (flit 17 1)) (flit 315 1)) (2 ^ 0)"
    using c(5,6) by (rule bnd_fdiv) simp_all
  from bnd_fadd [OF c(3) this, of 1]
  have "bnd (fadd (fdiv (flit 2 1) (flit 15 1)) (fdiv (fmul x2 (flit 17 1)) (flit 315 1))) (2 ^ 1)"
    by simp
  from bnd_fmul [OF assms this, of 1]
  have "bnd (fmul x2 (fadd (fdiv (flit 2 1) (flit 15 1))
          (fdiv (fmul x2 (flit 17 1)) (flit 315 1)))) (2 ^ 1)"
    by simp
  from bnd_fadd [OF c(2) this, of 2]
  have "bnd (fadd (fdiv (flit 1 1) (flit 3 1)) (fmul x2 (fadd (fdiv (flit 2 1) (flit 15 1))
          (fdiv (fmul x2 (flit 17 1)) (flit 315 1))))) (2 ^ 2)"
    by simp
  from bnd_fmul [OF assms this, of 2]
  have "bnd (fmul x2 (fadd (fdiv (flit 1 1) (flit 3 1)) (fmul x2 (fadd (fdiv (flit 2 1) (flit 15 1))
          (fdiv (fmul x2 (flit 17 1)) (flit 315 1)))))) (2 ^ 2)"
    by simp
  from bnd_fadd [OF c(1) this, of 3] show ?thesis by (simp add: bnd_def)
qed

lemma atanh_odd_small:
  assumes "flt (fabs x) (flit 5 10)"
  shows "atanh (fneg x) = fneg (atanh x)"
proof -
  from small_bnd [OF assms] have x: "fin32 x" "\<bar>valf x\<bar> \<le> 1 / 2" by (rule bndD)+
  have "valf (flit 1 1) = 1" by (simp add: lit_bits val_ev)
  with x have "\<not> fle (flit 1 1) (fabs x)" by (simp add: fle_iff)
  with atanh_poly_fin [OF square_bnd [OF small_bnd [OF assms]]] x assms
  show ?thesis by (simp add: atanh_def Let_def fmul_fneg_left)
qed

lemma atanh_sentinel_sym:
  assumes "fle (flit 1 1) (fabs x)"
  shows "atanh (fneg x) = flit 0 1" "atanh x = flit 0 1" "feq (atanh (fneg x)) (fneg (atanh x))"
  using assms by (simp_all add: atanh_def feq_iff lit_bits)

section \<open>The error of one rounding\<close>

lemma mval_compose:
  assumes "m \<le> 2 * hid f" "E = 0 \<or> hid f \<le> m"
  shows "mval f (E * hid f + m) = real m * 2 powi (int E + emin f - int (prec f - 1))"
proof -
  define h where "h = hid f"
  have h: "0 < h" by (simp add: h_def hid_pos)
  consider "E = 0" "m < h" | "m = 2 * h" | "h \<le> m" "m < 2 * h"
    using assms by (fold h_def) linarith
  then show ?thesis
  proof cases
    case 1
    then show ?thesis by (simp add: mval_def sig_def expo_def h_def [symmetric])
  next
    case 2
    have k: "E * h + m = (E + 2) * h" by (simp add: 2)
    have "\<not> (E + 2) * h < h" using h by simp
    then have "mval f ((E + 2) * h) = real h * 2 powi (int E + emin f - int (prec f - 1) + 1)"
      using h by (simp add: mval_def sig_def expo_def h_def [symmetric] algebra_simps)
    also have "\<dots> = real m * 2 powi (int E + emin f - int (prec f - 1))"
      by (simp add: 2 powi2_add1)
    finally show ?thesis by (simp add: k h_def [symmetric])
  next
    case 3
    then have d: "(E * h + m) div h = E + 1" and r: "(E * h + m) mod h = m - h"
      using h by (simp_all add: div_nat_eqI mod_nat_eqI algebra_simps)
    have "\<not> E * h + m < h" using 3 by (simp add: trans_le_add2)
    moreover have "m mod h = m - h" "m div h = 1"
      using 3 by (simp_all add: div_nat_eqI mod_nat_eqI)
    moreover have "real h + real (m - h) = real m" using 3 by simp
    ultimately show ?thesis
      using 3 by (simp add: mval_def sig_def expo_def h_def [symmetric] d r)
  qed
qed

lemma rnd_err_ulp:
  assumes x: "0 < x" and K: "x \<le> mval f K" "K < inf_mag f"
  shows "\<bar>mval f (rnd f x) - x\<bar> \<le> 2 powi (binade f x - int (prec f - 1) - 1)"
proof -
  define h where "h = hid f"
  define e where "e = binade f x"
  define y where "y = x * 2 powi (int (prec f - 1) - e)"
  define m where "m = rne_r y"
  define E where "E = nat (e - emin f)"
  have e: "emin f \<le> e" by (simp add: e_def binade_ge)
  have y0: "0 \<le> y" using x by (simp add: y_def)
  from scaled_lt [OF x, of f] have "y \<le> real (2 * h)" by (simp add: y_def e_def h_def)
  with y0 have "rne_r y \<le> rne_r (real (2 * h))" by (rule rne_r_mono)
  then have m2: "m \<le> 2 * hid f" by (simp only: rne_r_of_nat m_def h_def)
  have mh: "E = 0 \<or> hid f \<le> m"
  proof (cases "E = 0")
    case False
    then have "emin f < e" by (simp add: E_def)
    then have "emin f \<le> \<lfloor>log 2 x\<rfloor>" by (simp add: e_def binade_def max_def split: if_splits)
    from scaled_ge [OF x this] have "real h \<le> y" by (simp add: y_def e_def h_def)
    then have "rne_r (real h) \<le> rne_r y" by (intro rne_r_mono) simp_all
    then show ?thesis by (simp add: rne_r_of_nat m_def h_def)
  qed simp
  have "rnd f x \<le> rnd f (mval f K)" using K(1) by (rule rnd_mono)
  also have "\<dots> = K" using K(2) by (simp add: rnd_exact)
  finally have "rnd f x < inf_mag f" using K(2) by simp
  then have "rnd f x = E * hid f + m"
    using x by (simp add: rnd_def E_def m_def y_def e_def min_def split: if_splits)
  then have "mval f (rnd f x) = real m * 2 powi (int E + emin f - int (prec f - 1))"
    using mval_compose [OF m2 mh] by simp
  also have "int E + emin f = e" using e by (simp add: E_def)
  finally have v: "mval f (rnd f x) = real m * 2 powi (e - int (prec f - 1))" .
  have "y * 2 powi (e - int (prec f - 1)) = x * (2 powi (int (prec f - 1) - e) * 2 powi (e - int (prec f - 1)))"
    by (simp add: y_def)
  also have "\<dots> = x" by (subst power_int_add [symmetric]) simp_all
  finally have xy: "x = y * 2 powi (e - int (prec f - 1))" by simp
  have "mval f (rnd f x) - x = (real m - y) * 2 powi (e - int (prec f - 1))"
    by (subst (2) xy) (simp add: v algebra_simps)
  then have "\<bar>mval f (rnd f x) - x\<bar> = \<bar>real m - y\<bar> * 2 powi (e - int (prec f - 1))"
    by (simp add: abs_mult)
  also have "\<dots> \<le> (1 / 2) * 2 powi (e - int (prec f - 1))"
    using rne_r_err [OF y0] by (intro mult_right_mono) (simp_all add: m_def)
  also have "\<dots> = 2 powi (e - int (prec f - 1) - 1)"
    using powi2_add1 [of "e - int (prec f - 1) - 1"] by simp
  finally show ?thesis by (simp only: e_def)
qed

lemma rnd_err:
  assumes x: "0 < x" and K: "x \<le> mval f K" "K < inf_mag f"
  shows "\<bar>mval f (rnd f x) - x\<bar> \<le> x * 2 powi (- int (prec f)) + 2 powi (emin f - int (prec f))"
proof -
  define e where "e = binade f x"
  have e: "emin f \<le> e" by (simp add: e_def binade_ge)
  from rnd_err_ulp [OF assms]
  have err: "\<bar>mval f (rnd f x) - x\<bar> \<le> 2 powi (e - int (prec f - 1) - 1)" by (simp only: e_def)
  show ?thesis
  proof (cases "e = emin f")
    case True
    have "0 \<le> x * 2 powi (- int (prec f))" using x by simp
    moreover have "2 powi (e - int (prec f - 1) - 1) \<le> (2::real) powi (emin f - int (prec f))"
      unfolding True by (intro power_int_increasing) simp_all
    ultimately show ?thesis using err by linarith
  next
    case False
    then have "e = \<lfloor>log 2 x\<rfloor>" by (simp add: e_def binade_def max_def split: if_splits)
    with floor_log2_bounds(1) [OF x] have "2 powi e \<le> x" by simp
    then have "2 powi e * 2 powi (- int (prec f)) \<le> x * 2 powi (- int (prec f))"
      by (intro mult_right_mono) simp_all
    moreover have "(2::real) powi e * 2 powi (- int (prec f)) = 2 powi (e - int (prec f))"
      by (subst power_int_add [symmetric]) simp_all
    moreover have "2 powi (e - int (prec f - 1) - 1) \<le> (2::real) powi (e - int (prec f))"
      by (intro power_int_increasing) simp_all
    moreover have "0 \<le> (2::real) powi (emin f - int (prec f))" by simp
    ultimately show ?thesis using err by linarith
  qed
qed

lemma rval32_err:
  assumes "\<bar>x\<bar> \<le> 2 ^ 127"
  shows "\<bar>rval binary32 x - x\<bar> \<le> \<bar>x\<bar> / 16777216 + 1 / 2 ^ 150"
proof -
  have c: "(2::real) powi (- int (prec binary32)) = 1 / 16777216"
    "(2::real) powi (emin binary32 - int (prec binary32)) = 1 / 2 ^ 150"
    by (simp_all add: b32 power_int_def power_one_over)
  have p: "\<bar>mval binary32 (rnd binary32 z) - z\<bar> \<le> z / 16777216 + 1 / 2 ^ 150"
    if "0 < z" "z \<le> 2 ^ 127" for z
    using rnd_err [of z binary32 2130706432] that unfolding c mval32_2p127
    by (simp add: b32)
  consider "x < 0" | "x = 0" | "0 < x" by linarith
  then show ?thesis
  proof cases
    case 1
    then have "rval binary32 x - x = - (mval binary32 (rnd binary32 (- x)) - (- x))"
      by (simp add: rval_def)
    then have "\<bar>rval binary32 x - x\<bar> = \<bar>mval binary32 (rnd binary32 (- x)) - (- x)\<bar>"
      by (simp only: abs_minus_cancel)
    moreover have "\<bar>x\<bar> = - x" using 1 by simp
    ultimately show ?thesis using assms p [of "- x"] 1 by simp
  next
    case 2
    then show ?thesis by (simp add: rval_0)
  next
    case 3
    then have "rval binary32 x = mval binary32 (rnd binary32 x)" "\<bar>x\<bar> = x"
      by (simp_all add: rval_def)
    then show ?thesis using assms p [of x] 3 by simp
  qed
qed

section \<open>Rounding between two neighbours\<close>

lemma normal_bounds:
  assumes "hid f \<le> k"
  shows "2 powi (expo f k + int (prec f - 1)) \<le> mval f k"
    "mval f (Suc k) \<le> 2 powi (expo f k + int (prec f - 1) + 1)"
    "emin f \<le> expo f k + int (prec f - 1)"
proof -
  define h where "h = hid f"
  have h: "0 < h" by (simp add: h_def hid_pos)
  from assms have s: "sig f k = h + k mod h" "\<not> k < h" by (simp_all add: sig_def h_def)
  have p: "(2::real) powi (expo f k + int (prec f - 1)) = real h * 2 powi expo f k"
    unfolding h_def real_hid by (subst power_int_add) (simp_all add: mult.commute)
  have "real h \<le> real (sig f k)" by (simp add: s)
  then show "2 powi (expo f k + int (prec f - 1)) \<le> mval f k"
    unfolding p mval_def by (intro mult_right_mono) simp_all
  have "k mod h < h" using h by simp
  then have "real (sig f k) + 1 \<le> 2 * real h" unfolding s by linarith
  then have "(real (sig f k) + 1) * 2 powi expo f k \<le> 2 * real h * 2 powi expo f k"
    by (intro mult_right_mono) simp_all
  then show "mval f (Suc k) \<le> 2 powi (expo f k + int (prec f - 1) + 1)"
    unfolding mval_Suc powi2_add1 p by (simp add: mval_def algebra_simps)
  from assms h have "1 \<le> k div h" by (simp add: h_def Suc_le_eq div_greater_zero_iff)
  with s(2) show "emin f \<le> expo f k + int (prec f - 1)" by (simp add: expo_def h_def)
qed

lemma binade_between:
  assumes "hid f \<le> k" "mval f k \<le> x" "x < mval f (Suc k)"
  shows "binade f x = expo f k + int (prec f - 1)"
proof -
  note b = normal_bounds [OF assms(1)]
  have "0 < mval f k" using b(1) by (rule less_le_trans [rotated]) simp
  with assms(2) have x: "0 < x" by simp
  from b(1) assms(2) have 1: "2 powi (expo f k + int (prec f - 1)) \<le> x" by simp
  from b(2) assms(3) have 2: "x < 2 powi (expo f k + int (prec f - 1) + 1)" by simp
  from floor_log2_eq [OF x 1 2] b(3) show ?thesis by (simp add: binade_def)
qed

lemma round_between:
  assumes "hid f \<le> k" "Suc k < inf_mag f" "mval f k \<le> x" "x < mval f (Suc k)"
  shows "k \<le> rnd f x" "rnd f x \<le> Suc k"
    "\<bar>mval f (rnd f x) - x\<bar> \<le> 2 powi expo f k / 2"
proof -
  have "rnd f (mval f k) \<le> rnd f x" using assms(3) by (rule rnd_mono)
  then show "k \<le> rnd f x" using assms(2) by (simp add: rnd_exact)
  have "rnd f x \<le> rnd f (mval f (Suc k))" using assms(4) by (intro rnd_mono) simp
  then show "rnd f x \<le> Suc k" using assms(2) by (simp add: rnd_exact)
  have "0 < mval f k" using normal_bounds(1) [OF assms(1)] by (rule less_le_trans [rotated]) simp
  with assms(3) have x: "0 < x" by simp
  from assms(4) have "x \<le> mval f (Suc k)" by simp
  from rnd_err_ulp [OF x this assms(2)]
  have "\<bar>mval f (rnd f x) - x\<bar> \<le> 2 powi (expo f k - 1)"
    by (simp add: binade_between [OF assms(1,3,4)])
  also have "(2::real) powi (expo f k - 1) = 2 powi expo f k / 2"
    using powi2_add1 [of "expo f k - 1"] by simp
  finally show "\<bar>mval f (rnd f x) - x\<bar> \<le> 2 powi expo f k / 2" .
qed

text \<open>A number nearer to one of two neighbours is rounded to that one.\<close>

lemma round_down:
  assumes "hid f \<le> k" "Suc k < inf_mag f" "mval f k \<le> x" "x - mval f k < 2 powi expo f k / 2"
  shows "rnd f x = k"
proof -
  have g: "0 < (2::real) powi expo f k" by simp
  with assms(4) have lt: "x < mval f (Suc k)" unfolding mval_Suc by linarith
  note r = round_between [OF assms(1-3) lt]
  have "rnd f x \<noteq> Suc k"
  proof
    assume "rnd f x = Suc k"
    with r(3) have "\<bar>mval f k + 2 powi expo f k - x\<bar> \<le> 2 powi expo f k / 2"
      by (simp add: mval_Suc)
    with assms(4) show False by linarith
  qed
  with r(1,2) show ?thesis by linarith
qed

lemma round_up:
  assumes "hid f \<le> k" "Suc k < inf_mag f" "mval f k \<le> x" "x < mval f (Suc k)"
    "mval f (Suc k) - x < 2 powi expo f k / 2"
  shows "rnd f x = Suc k"
proof -
  note r = round_between [OF assms(1-4)]
  have "rnd f x \<noteq> k"
  proof
    assume "rnd f x = k"
    with r(3) have "\<bar>mval f k - x\<bar> \<le> 2 powi expo f k / 2" by simp
    with assms(3,5) show False unfolding mval_Suc by linarith
  qed
  with r(1,2) show ?thesis by linarith
qed

section \<open>The error of one rounding below a power of two\<close>

lemma rval32_abs_err:
  assumes "0 \<le> x" "x < 2 powi e" "- 125 \<le> e" "e \<le> 127"
  shows "\<bar>rval binary32 x - x\<bar> \<le> 2 powi (e - 25)"
proof (cases "x = 0")
  case True
  then show ?thesis by (simp add: rval_0)
next
  case False
  with assms(1) have x: "0 < x" by simp
  have "(2::real) powi e \<le> 2 powi 127" using assms(4) by (simp only: powi2_le_iff)
  with assms(2) have "x \<le> mval binary32 2130706432" by (simp add: mval32_2p127)
  from rnd_err_ulp [OF x this]
  have err: "\<bar>mval binary32 (rnd binary32 x) - x\<bar> \<le> 2 powi (binade binary32 x - 24)"
    by (simp add: b32)
  from floor_log2_bounds(1) [OF x] assms(2) have "(2::real) powi \<lfloor>log 2 x\<rfloor> < 2 powi e" by simp
  then have "\<lfloor>log 2 x\<rfloor> < e" by (simp only: powi2_less_iff)
  with assms(3) have "binade binary32 x - 24 \<le> e - 25" by (simp add: binade_def b32)
  then have "(2::real) powi (binade binary32 x - 24) \<le> 2 powi (e - 25)"
    by (simp only: powi2_le_iff)
  with err x show ?thesis by (simp add: rval_def)
qed

lemma grid32:
  assumes "hid binary32 \<le> k" "2 powi j \<le> mval binary32 k"
  shows "\<exists>n::nat. mval binary32 k = real n * 2 powi (j - 23)"
proof -
  from normal_bounds(2) [OF assms(1)]
  have "mval binary32 (Suc k) \<le> 2 powi (expo binary32 k + 24)" by (simp add: b32 add.commute)
  with mval_less_Suc [of binary32 k] assms(2)
  have "(2::real) powi j < 2 powi (expo binary32 k + 24)" by linarith
  then have j: "j < expo binary32 k + 24" by (simp only: powi2_less_iff)
  define d where "d = nat (expo binary32 k - (j - 23))"
  from j have "expo binary32 k = int d + (j - 23)" by (simp add: d_def)
  then have "(2::real) powi expo binary32 k = 2 ^ d * 2 powi (j - 23)"
    by (simp add: power_int_add)
  then have "mval binary32 k = real (sig binary32 k * 2 ^ d) * 2 powi (j - 23)"
    by (simp add: mval_def)
  then show ?thesis ..
qed

lemma rval32_grid:
  assumes "2 powi j \<le> rval binary32 x" "- 126 \<le> j"
  shows "\<exists>n::nat. rval binary32 x = real n * 2 powi (j - 23)"
proof -
  have p: "0 < (2::real) powi j" by simp
  with assms(1) have pos: "0 < rval binary32 x" by linarith
  then have "\<not> x < 0" using rval_nonpos [of x binary32] by (cases "x < 0") simp_all
  then have r: "rval binary32 x = mval binary32 (rnd binary32 x)" by (simp add: rval_def)
  have "mval binary32 (hid binary32) = 2 powi (- 126)"
    by (simp add: mval_def sig_def expo_def b32 power_int_def power_one_over)
  also have "\<dots> \<le> 2 powi j" using assms(2) by (simp only: powi2_le_iff)
  finally have "mval binary32 (hid binary32) \<le> mval binary32 (rnd binary32 x)"
    using assms(1) r by simp
  then have "hid binary32 \<le> rnd binary32 x" by (simp only: mval_le_iff)
  from grid32 [OF this, of j] assms(1) show ?thesis by (simp add: r)
qed


lemma rval32_err_small:
  assumes "0 \<le> x"
  shows "x < 1 \<Longrightarrow> \<bar>rval binary32 x - x\<bar> \<le> 1 / 33554432"
    "x < 2 \<Longrightarrow> \<bar>rval binary32 x - x\<bar> \<le> 1 / 16777216"
    "x < 4 \<Longrightarrow> \<bar>rval binary32 x - x\<bar> \<le> 1 / 8388608"
    "x < 8 \<Longrightarrow> \<bar>rval binary32 x - x\<bar> \<le> 1 / 4194304"
  using rval32_abs_err [OF assms, of 0] rval32_abs_err [OF assms, of 1]
    rval32_abs_err [OF assms, of 2] rval32_abs_err [OF assms, of 3]
  by (simp_all add: power_int_def power_one_over)

lemma rval32_grid_small:
  "1 \<le> rval binary32 x \<Longrightarrow> \<exists>n::nat. rval binary32 x = real n / 8388608"
  "2 \<le> rval binary32 x \<Longrightarrow> \<exists>n::nat. rval binary32 x = real n / 4194304"
  using rval32_grid [of 0 x] rval32_grid [of 1 x]
  by (simp_all add: power_int_def power_one_over)

section \<open>The range-reduction loops\<close>

lemma expo_mono: "k \<le> k' \<Longrightarrow> expo f k \<le> expo f k'"
proof -
  assume le: "k \<le> k'"
  have "1 \<le> k' div hid f" if "\<not> k' < hid f"
    using that hid_pos [of f] by (simp add: Suc_le_eq div_greater_zero_iff)
  moreover have "k div hid f \<le> k' div hid f" using le by (rule div_le_mono)
  ultimately show ?thesis using le by (auto simp: expo_def)
qed

lemma mval_pred:
  assumes "0 < k"
  shows "mval f (k - 1) = mval f k - 2 powi expo f (k - 1)"
  using mval_Suc [of f "k - 1"] assms by simp

lemma cvals:
  "valf pi_f = 13176795 / 4194304" "valf two_pi = 13176795 / 2097152"
  "valf half_pi = 13176795 / 8388608" "fin32 pi_f" "fin32 two_pi" "fin32 half_pi"
  by (simp_all add: cbits val_ev)

text \<open>
  Subtracting \<open>two_pi\<close> from a \<open>float\<close> above \<open>pi\<close> and up to \<open>2 ^ 27\<close> gives a smaller
  \<open>float\<close>. Up to \<open>2 ^ 26\<close> the gap to the next smaller one is at most 4, less than
  \<open>two_pi\<close>; from there to \<open>2 ^ 27\<close> it is 8, and the difference is nearer to the next
  smaller \<open>float\<close> than to the \<open>float\<close> itself.
\<close>

lemma step_down_real:
  assumes "k \<le> 1291845632" "0 < k"
  shows "rval binary32 (mval binary32 k - 13176795 / 2097152) < mval binary32 k"
proof (cases "expo binary32 (k - 1) \<le> 2")
  case True
  then have "(2::real) powi expo binary32 (k - 1) \<le> 2 powi 2" by (simp only: powi2_le_iff)
  then have "mval binary32 k - 13176795 / 2097152 \<le> mval binary32 (k - 1)"
    unfolding mval_pred [OF assms(2)] by simp
  then have "rval binary32 (mval binary32 k - 13176795 / 2097152)
      \<le> rval binary32 (mval binary32 (k - 1))" by (rule rval_mono)
  also from assms have "\<dots> = mval binary32 (k - 1)" by (intro rval_mval) (simp add: b32)
  also from assms have "\<dots> < mval binary32 k" by (intro mval_strict_mono) simp
  finally show ?thesis .
next
  case False
  define j where "j = k - 1"
  from assms(2) have k: "k = Suc j" by (simp add: j_def)
  from assms have "expo binary32 j \<le> expo binary32 1291845631"
    unfolding j_def by (intro expo_mono) simp
  also have "\<dots> = 3" by (simp add: expo_def b32)
  finally have e: "expo binary32 j = 3" using False by (simp add: j_def)
  then have h: "hid binary32 \<le> j" by (simp add: expo_def b32 split: if_splits)
  from assms(1) have i: "Suc j < inf_mag binary32" by (simp add: k b32)
  have m: "mval binary32 k = mval binary32 j + 8" by (simp add: k mval_Suc e)
  have "rnd binary32 (mval binary32 k - 13176795 / 2097152) = j"
    using h i by (rule round_down) (simp_all add: m e)
  moreover have "0 < mval binary32 j" by (rule mval_pos) (use h in \<open>simp add: b32\<close>)
  ultimately have "rval binary32 (mval binary32 k - 13176795 / 2097152) = mval binary32 j"
    by (simp add: rval_def m)
  then show ?thesis by (simp add: m)
qed

text \<open>
  Above \<open>2 ^ 27\<close> the gap between neighbours is at least 16, and the difference is rounded
  back to the \<open>float\<close> that \<open>two_pi\<close> was subtracted from.
\<close>

lemma stay_real:
  assumes "1291845632 < k" "k < inf_mag binary32"
  shows "rnd binary32 (mval binary32 k - 13176795 / 2097152) = k"
proof -
  define j where "j = k - 1"
  from assms(1) have k: "k = Suc j" by (simp add: j_def)
  from assms(1) have "expo binary32 1291845632 \<le> expo binary32 j"
    unfolding j_def by (intro expo_mono) simp
  moreover have "expo binary32 1291845632 = 4" by (simp add: expo_def b32)
  ultimately have "(2::real) powi 4 \<le> 2 powi expo binary32 j" by (simp only: powi2_le_iff)
  then have g: "16 \<le> (2::real) powi expo binary32 j" by simp
  from assms(1) have h: "hid binary32 \<le> j" by (simp add: j_def b32)
  from assms(2) have i: "Suc j < inf_mag binary32" by (simp add: k)
  have m: "mval binary32 k = mval binary32 j + 2 powi expo binary32 j" by (simp add: k mval_Suc)
  have "rnd binary32 (mval binary32 k - 13176795 / 2097152) = Suc j"
    using h i
  proof (rule round_up)
    show "mval binary32 j \<le> mval binary32 k - 13176795 / 2097152" using g by (simp add: m)
    show "mval binary32 k - 13176795 / 2097152 < mval binary32 (Suc j)" by (simp add: k)
    show "mval binary32 (Suc j) - (mval binary32 k - 13176795 / 2097152)
        < 2 powi expo binary32 j / 2"
      using g by (simp add: k)
  qed
  then show ?thesis by (simp add: k)
qed

lemma mval32_2p27: "mval binary32 1291845632 = 134217728"
  using mval32_pow2 [of 27] by simp

lemma pos_float:
  assumes "0 < valf a"
  shows "valf a = mval binary32 (fp_mag (unpack a))" "0 < fp_mag (unpack a)"
proof -
  from assms show "valf a = mval binary32 (fp_mag (unpack a))"
    using mval_nonneg [of binary32 "fp_mag (unpack a)"]
    by (simp add: valf_def fval_def split: if_splits)
  with assms show "0 < fp_mag (unpack a)"
    by (metis mval_0 gr0I less_irrefl)
qed

lemma step_down:
  assumes "fin32 a" "0 < valf a" "valf a \<le> 134217728"
  shows "fin32 (fsub a two_pi)" "valf (fsub a two_pi) < valf a"
    "- (13176795 / 2097152) \<le> valf (fsub a two_pi)"
proof -
  define k where "k = fp_mag (unpack a)"
  from pos_float [OF assms(2)] have v: "valf a = mval binary32 k" and k: "0 < k"
    by (simp_all add: k_def)
  from assms(3) have "k \<le> 1291845632"
    unfolding v mval32_2p27 [symmetric] by (simp only: mval_le_iff)
  from step_down_real [OF this k]
  have lt: "rval binary32 (valf a - valf two_pi) < valf a" by (simp add: v cvals)
  have eq: "valf (fsub a two_pi) = rval binary32 (valf a - valf two_pi)"
    using assms(1) by (simp add: valf_fsub cvals)
  from lt eq show "valf (fsub a two_pi) < valf a" by simp
  have "valf (fneg two_pi) \<le> valf a - valf two_pi" using assms(2) by simp
  then have "valf (fneg two_pi) \<le> rval binary32 (valf a - valf two_pi)"
    by (rule rval32_ge) (simp add: fin32_not_nan cvals)
  with eq show lo: "- (13176795 / 2097152) \<le> valf (fsub a two_pi)" by (simp add: cvals)
  from lo lt eq assms(3) have "\<bar>valf (fsub a two_pi)\<bar> \<le> 2 ^ 127" by (simp add: abs_if)
  then show "fin32 (fsub a two_pi)" by (rule fin32_bound)
qed

lemma step_up:
  assumes "fin32 a" "valf a < 0" "- 134217728 \<le> valf a"
  shows "fin32 (fadd a two_pi)" "valf a < valf (fadd a two_pi)"
    "valf (fadd a two_pi) \<le> 13176795 / 2097152"
proof -
  define k where "k = fp_mag (unpack (fneg a))"
  from assms(2) have "0 < valf (fneg a)" by simp
  from pos_float [OF this] have v: "- valf a = mval binary32 k" and k: "0 < k"
    by (simp_all add: k_def)
  from assms(3) have "k \<le> 1291845632"
    using v mval_le_iff [of binary32 k 1291845632] by (simp add: mval32_2p27)
  from step_down_real [OF this k]
  have "rval binary32 (- valf a - valf two_pi) < - valf a" by (simp add: v [symmetric] cvals)
  moreover have "rval binary32 (valf a + valf two_pi) = - rval binary32 (- valf a - valf two_pi)"
    using rval_minus [of binary32 "- valf a - valf two_pi"] by (simp add: add.commute)
  ultimately have lt: "valf a < rval binary32 (valf a + valf two_pi)" by simp
  have eq: "valf (fadd a two_pi) = rval binary32 (valf a + valf two_pi)"
    using assms(1) by (simp add: valf_fadd cvals)
  from lt eq show "valf a < valf (fadd a two_pi)" by simp
  have "valf a + valf two_pi \<le> valf two_pi" using assms(2) by simp
  then have "rval binary32 (valf a + valf two_pi) \<le> valf two_pi"
    by (rule rval32_le) (simp add: fin32_not_nan cvals)
  with eq show hi: "valf (fadd a two_pi) \<le> 13176795 / 2097152" by (simp add: cvals)
  from hi lt eq assms(3) have "\<bar>valf (fadd a two_pi)\<bar> \<le> 2 ^ 127" by (simp add: abs_if)
  then show "fin32 (fadd a two_pi)" by (rule fin32_bound)
qed

lemma ordv_valf_less: "ordv (unpack a) < ordv (unpack b) \<longleftrightarrow> valf a < valf b"
  by (simp add: valf_def ordv_less_iff [of _ _ binary32])

lemma wrap_above_returns:
  assumes "fin32 a" "valf a \<le> 134217728"
  shows "\<exists>y. wrap_above a = Some y \<and> fin32 y \<and> valf y \<le> valf pi_f \<and>
           min (valf a) (- valf two_pi) \<le> valf y"
  using assms
proof (induction a rule: measure_induct_rule [where f = "\<lambda>a. nat (ordv (unpack a))"])
  case (less a)
  show ?case
  proof (cases "flt pi_f a")
    case False
    with less.prems have "valf a \<le> valf pi_f"
      by (simp add: flt_iff fin32_not_nan cvals)
    moreover from False have "wrap_above a = Some a" by (subst wrap_above.simps) simp
    ultimately show ?thesis using less.prems by simp
  next
    case True
    then have pos: "0 < valf a" by (simp add: flt_iff cvals)
    note s = step_down [OF less.prems(1) pos less.prems(2)]
    from pos have "0 < ordv (unpack a)"
      using ordv_valf_less [of 0 a] by (simp add: unpack_0 ordv_def)
    moreover from s(2) have "ordv (unpack (fsub a two_pi)) < ordv (unpack a)"
      by (simp add: ordv_valf_less)
    ultimately have "nat (ordv (unpack (fsub a two_pi))) < nat (ordv (unpack a))" by simp
    from less.IH [OF this s(1)] s(2) less.prems(2)
    obtain y where y: "wrap_above (fsub a two_pi) = Some y" "fin32 y" "valf y \<le> valf pi_f"
      "min (valf (fsub a two_pi)) (- valf two_pi) \<le> valf y" by auto
    from True y(1) have "wrap_above a = Some y" by (subst wrap_above.simps) simp
    moreover from y(4) s(3) pos have "min (valf a) (- valf two_pi) \<le> valf y"
      by (simp add: cvals min_def split: if_splits)
    ultimately show ?thesis using y by simp
  qed
qed

lemma wrap_below_returns:
  assumes "fin32 a" "- 134217728 \<le> valf a"
  shows "\<exists>y. wrap_below a = Some y \<and> fin32 y \<and> - valf pi_f \<le> valf y \<and>
           valf y \<le> max (valf a) (valf two_pi)"
  using assms
proof (induction a rule: measure_induct_rule [where f = "\<lambda>a. nat (- ordv (unpack a))"])
  case (less a)
  show ?case
  proof (cases "flt a (fneg pi_f)")
    case False
    with less.prems have "- valf pi_f \<le> valf a"
      by (simp add: flt_iff fin32_not_nan cvals)
    moreover from False have "wrap_below a = Some a" by (subst wrap_below.simps) simp
    ultimately show ?thesis using less.prems by simp
  next
    case True
    then have neg: "valf a < 0" by (simp add: flt_iff cvals)
    note s = step_up [OF less.prems(1) neg less.prems(2)]
    from neg have "ordv (unpack a) < 0"
      using ordv_valf_less [of a 0] by (simp add: unpack_0 ordv_def)
    moreover from s(2) have "ordv (unpack a) < ordv (unpack (fadd a two_pi))"
      by (simp add: ordv_valf_less)
    ultimately have "nat (- ordv (unpack (fadd a two_pi))) < nat (- ordv (unpack a))" by simp
    from less.IH [OF this s(1)] s(2) less.prems(2)
    obtain y where y: "wrap_below (fadd a two_pi) = Some y" "fin32 y" "- valf pi_f \<le> valf y"
      "valf y \<le> max (valf (fadd a two_pi)) (valf two_pi)" by auto
    from True y(1) have "wrap_below a = Some y" by (subst wrap_below.simps) simp
    moreover from y(4) s(3) neg have "valf y \<le> max (valf a) (valf two_pi)"
      by (simp add: cvals max_def split: if_splits)
    ultimately show ?thesis using y by simp
  qed
qed

lemma reduce_returns:
  assumes "fin32 a" "\<bar>valf a\<bar> \<le> 134217728"
  shows "\<exists>y. wrap_below a \<bind> wrap_above = Some y \<and> fin32 y \<and>
           - valf two_pi \<le> valf y \<and> valf y \<le> valf pi_f"
proof -
  from assms have "- 134217728 \<le> valf a" by simp
  from wrap_below_returns [OF assms(1) this]
  obtain z where z: "wrap_below a = Some z" "fin32 z" "- valf pi_f \<le> valf z"
    "valf z \<le> max (valf a) (valf two_pi)" by auto
  from z(4) assms(2) have "valf z \<le> 134217728" by (simp add: cvals max_def split: if_splits)
  from wrap_above_returns [OF z(2) this]
  obtain y where y: "wrap_above z = Some y" "fin32 y" "valf y \<le> valf pi_f"
    "min (valf z) (- valf two_pi) \<le> valf y" by auto
  from y(4) z(3) have "- valf two_pi \<le> valf y" by (simp add: cvals min_def split: if_splits)
  with z(1) y show ?thesis by simp
qed

text \<open>A loop that does not move does not return.\<close>

lemma wrap_above_stuck:
  assumes "flt pi_f a" "fsub a two_pi = a"
  shows "wrap_above a = None"
proof (rule ccontr)
  assume "wrap_above a \<noteq> None"
  then obtain y where y: "wrap_above a = Some y" by auto
  have "a \<noteq> a"
  proof (rule wrap_above.raw_induct [where P = "\<lambda>t z. t \<noteq> a", OF _ y])
    fix wa t z
    assume ih: "\<And>x y. wa x = Some y \<Longrightarrow> x \<noteq> a"
      and st: "(if flt pi_f t then wa (fsub t two_pi) else Some t) = Some z"
    show "t \<noteq> a"
    proof
      assume "t = a"
      with st assms have "wa a = Some z" by simp
      from ih [OF this] show False by simp
    qed
  qed
  then show False by simp
qed

section \<open>The sine pipeline\<close>

lemma fp_add_commute: "fp_add f a b = fp_add f b a"
proof -
  have "a = b" if "is_inf f a" "is_inf f b" "fp_neg a = fp_neg b"
    using that by (cases a; cases b) (simp add: is_inf_def)
  then show ?thesis
    by (auto simp: fp_add_def align_sum_def min.commute add.commute conj_commute is_inf_def)
qed

lemma fadd_commute: "fadd a b = fadd b a"
  by (simp add: fadd_def fp_add_commute)

lemma fsub_fneg: "fsub a (fneg b) = fadd a b"
  by (simp add: fsub_def fadd_def fp_sub_def unpack_fneg fp_uminus_def)

lemma mval32_one: "mval binary32 1065353216 = 1"
  using mval32_pow2 [of 0] by simp

lemma fmul_one:
  assumes "fin32 x"
  shows "fmul 0x3F800000 x = x"
proof (rule unpack_inj)
  have "unpack 0x3F800000 = Fp False 1065353216" by (simp add: unpack_def)
  moreover have "is_fin binary32 (Fp False 1065353216)" by (simp add: is_fin_def b32)
  moreover from assms have "fp_mag (unpack x) \<le> inf_mag binary32"
    by (simp add: fin32_def is_fin_def)
  ultimately show "unpack (fmul 0x3F800000 x) = unpack x"
    using assms by (simp add: unpack_fmul fp_mul_fin fin32_def mval32_one rnd_exact)
qed

lemma fmul_minus_one:
  assumes "fin32 x"
  shows "fmul (fneg 0x3F800000) x = fneg x"
proof -
  have "fin32 0x3F800000" by (simp add: val_ev)
  with assms show ?thesis by (simp add: fmul_fneg_left fmul_one)
qed

lemma zero_cases:
  assumes "valf x = 0"
  shows "x = 0 \<or> x = 0x80000000"
proof -
  from assms have "fp_mag (unpack x) = 0"
    using is_zero_iff [of "unpack x" binary32] by (simp add: valf_def is_zero_def)
  then have "unpack x = Fp False 0 \<or> unpack x = Fp True 0" by (cases "unpack x") auto
  moreover have "unpack 0 = Fp False 0" "unpack 0x80000000 = Fp True 0"
    by (simp_all add: unpack_def)
  ultimately have "unpack x = unpack 0 \<or> unpack x = unpack 0x80000000" by simp
  then show ?thesis by (auto dest: unpack_inj)
qed

lemma spec_consts: "spec_B = B" "spec_C = C" "spec_P = P"
  by (simp_all add: spec_B_def spec_C_def spec_P_def cbits rnd_ev fp_ev fl_ev)

lemma bnd_consts: "bnd B 2" "bnd C 1" "bnd P 1"
  by (simp_all add: cbits val_ev)

lemma nan32_fmul_any: "nan32 a \<Longrightarrow> fmul a b = pack (qnan binary32)"
  by (simp add: nan32_def fmul_def fp_mul_def)

lemma correction_eq:
  "(if flt s zero then fadd (fmul P (fsub (fmul s (fneg s)) s)) s
    else fadd (fmul P (fsub (fmul s s) s)) s) = spec_correction s"
proof (cases "flt s zero")
  case True
  then have "fp_neg (unpack s)"
    using mval_nonneg [of binary32 "fp_mag (unpack s)"]
    by (simp add: flt_iff zero_bits valf_0 valf_def [of s] fval_def split: if_splits)
  then have "fabs s = fneg s" by (simp add: fabs_def fneg_def fp_abs_def fp_uminus_def)
  with True show ?thesis by (simp add: spec_correction_def spec_consts fadd_commute)
next
  case False
  consider "\<not> fp_neg (unpack s)" | "nan32 s" | "fp_neg (unpack s)" "\<not> nan32 s" by blast
  then show ?thesis
  proof cases
    case 1
    then have "fabs s = pack (unpack s)" by (cases "unpack s") (simp add: fabs_def fp_abs_def)
    then have "fabs s = s" by (simp add: pack_unpack)
    with False show ?thesis by (simp add: spec_correction_def spec_consts fadd_commute)
  next
    case 2
    then have "fmul s s = fmul s (fabs s)" by (simp add: nan32_fmul_any)
    with False show ?thesis by (simp add: spec_correction_def spec_consts fadd_commute)
  next
    case 3
    with False have "valf s = 0"
      using mval_nonneg [of binary32 "fp_mag (unpack s)"]
      by (simp add: flt_iff zero_bits valf_0 not_nan32_0 valf_def [of s] fval_def)
    with 3 have s: "s = 0x80000000" using zero_cases [of s] by (auto simp: unpack_0)
    show ?thesis unfolding s
      by (simp add: spec_correction_def spec_consts cbits rnd_ev fp_ev fl_ev)
  qed
qed

lemma square_term_fin:
  assumes "bnd t 4"
  shows "fin32 (fmul (fmul C t) t)"
proof -
  from bnd_fmul [OF bnd_consts(2) assms, of 2] have "bnd (fmul C t) (2 ^ 2)" by simp
  from bnd_fmul [OF this assms, of 4] show ?thesis by (simp add: bnd_def)
qed

lemma parabola_eq:
  assumes "bnd t 4"
  shows "(if flt t zero then fadd (fmul t B) (fmul (fmul C t) t)
          else fsub (fmul t B) (fmul (fmul C t) t)) = spec_parabola t"
proof -
  note X = square_term_fin [OF assms]
  from assms have nn: "\<not> nan32 t" by (simp add: bnd_def fin32_not_nan)
  have "valf t < 0 \<or> 0 < valf t \<or> valf t = 0" by linarith
  with nn consider "flt t 0" | "flt 0 t" | "valf t = 0" by (auto simp: flt_iff)
  then show ?thesis
  proof cases
    case 1
    with X show ?thesis
      by (simp add: spec_parabola_def spec_sign_def spec_consts zero_bits lit_bits
          fmul_minus_one fsub_fneg)
  next
    case 2
    then have "\<not> flt t 0" by (simp add: flt_iff valf_0)
    with 2 X show ?thesis
      by (simp add: spec_parabola_def spec_sign_def spec_consts zero_bits lit_bits fmul_one)
  next
    case 3
    from zero_cases [OF 3] show ?thesis
    proof
      assume t: "t = 0"
      show ?thesis unfolding t
        by (simp add: spec_parabola_def spec_sign_def spec_consts cbits rnd_ev fp_ev fl_ev)
    next
      assume t: "t = 0x80000000"
      show ?thesis unfolding t
        by (simp add: spec_parabola_def spec_sign_def spec_consts cbits rnd_ev fp_ev fl_ev)
    qed
  qed
qed

lemma wrap_id:
  assumes "fle (fneg pi_f) t" "fle t pi_f"
  shows "wrap_below t = Some t" "wrap_above t = Some t"
proof -
  from assms(1) have "\<not> flt t (fneg pi_f)" by (simp add: fle_iff flt_iff)
  then show "wrap_below t = Some t" by (subst wrap_below.simps) simp
  from assms(2) have "\<not> flt pi_f t" by (simp add: fle_iff flt_iff)
  then show "wrap_above t = Some t" by (subst wrap_above.simps) simp
qed

lemma reduced_bnd:
  assumes "fle (fneg pi_f) t" "fle t pi_f"
  shows "bnd t 4" "\<not> nan32 t" "- valf pi_f \<le> valf t" "valf t \<le> valf pi_f"
proof -
  from assms show nn: "\<not> nan32 t" and lo: "- valf pi_f \<le> valf t" and hi: "valf t \<le> valf pi_f"
    by (simp_all add: fle_iff)
  from lo hi have a: "\<bar>valf t\<bar> \<le> 4" by (simp add: cvals abs_if)
  then have "fin32 t" by (intro fin32_bound) simp
  with a show "bnd t 4" by (simp add: bnd_def)
qed

lemma phase_shift_range:
  assumes "fle (fneg pi_f) t" "fle t pi_f"
  shows "fle (fneg pi_f) (spec_rewrap (fadd t half_pi))" "fle (spec_rewrap (fadd t half_pi)) pi_f"
proof -
  note r = reduced_bnd [OF assms]
  from r(1) have ft: "fin32 t" by (rule bndD)
  define u where "u = fadd t half_pi"
  have vu: "valf u = rval binary32 (valf t + valf half_pi)"
    using ft by (simp add: u_def valf_fadd cvals)
  have "valf (fneg half_pi) \<le> valf t + valf half_pi" using r(3) by (simp add: cvals)
  then have "valf (fneg half_pi) \<le> rval binary32 (valf t + valf half_pi)"
    by (rule rval32_ge) (simp add: fin32_not_nan cvals)
  then have lo: "- valf half_pi \<le> valf u" by (simp add: vu)
  have "\<bar>valf t + valf half_pi\<bar> \<le> 2 ^ 3" using r(3,4) by (simp add: cvals abs_if)
  then have "\<bar>valf u\<bar> \<le> 2 ^ 3" unfolding vu by (rule rval32_pow2_le) simp
  then have hi: "valf u \<le> 8" by simp
  from lo hi have "\<bar>valf u\<bar> \<le> 2 ^ 127" by (simp add: cvals abs_if)
  then have fu: "fin32 u" by (rule fin32_bound)
  show "fle (fneg pi_f) (spec_rewrap (fadd t half_pi))"
  proof (cases "flt pi_f u")
    case True
    then have "valf (fneg pi_f) \<le> valf u - valf two_pi" by (simp add: flt_iff cvals)
    then have "valf (fneg pi_f) \<le> rval binary32 (valf u - valf two_pi)"
      by (rule rval32_ge) (simp add: fin32_not_nan cvals)
    with True fu show ?thesis
      by (simp add: spec_rewrap_def u_def [symmetric] fle_iff valf_fsub not_nan_fsub cvals
          fin32_not_nan)
  next
    case False
    with lo fu show ?thesis
      by (simp add: spec_rewrap_def u_def [symmetric] fle_iff cvals fin32_not_nan)
  qed
  show "fle (spec_rewrap (fadd t half_pi)) pi_f"
  proof (cases "flt pi_f u")
    case True
    from hi have "valf u - valf two_pi \<le> valf pi_f" by (simp add: cvals)
    then have "rval binary32 (valf u - valf two_pi) \<le> valf pi_f"
      by (rule rval32_le) (simp add: fin32_not_nan cvals)
    with True fu show ?thesis
      by (simp add: spec_rewrap_def u_def [symmetric] fle_iff valf_fsub not_nan_fsub cvals
          fin32_not_nan)
  next
    case False
    with fu show ?thesis
      by (simp add: spec_rewrap_def u_def [symmetric] fle_iff flt_iff cvals fin32_not_nan)
  qed
qed

lemma sin_fm_reduced:
  assumes "fle (fneg pi_f) t" "fle t pi_f"
  shows "sin_fm t = Some (spec_sin t)"
proof -
  note b = reduced_bnd(1) [OF assms]
  show ?thesis
    unfolding spec_sin_def parabola_eq [OF b, symmetric] correction_eq [symmetric]
    by (simp add: sin_fm_def wrap_id [OF assms] Let_def)
qed

lemma cos_fm_reduced:
  assumes "fle (fneg pi_f) t" "fle t pi_f"
  shows "cos_fm t = Some (spec_cos t)"
proof -
  note b = reduced_bnd(1) [OF phase_shift_range [OF assms]]
  show ?thesis
    unfolding spec_cos_def spec_sin_def parabola_eq [OF b, symmetric] correction_eq [symmetric]
    by (simp add: cos_fm_def wrap_id [OF assms] Let_def spec_rewrap_def)
qed

section \<open>Integers, fractions and the conversions to and from \<open>int\<close>\<close>

lemma nat_representable:
  assumes "m < 2 ^ 24"
  shows "\<exists>k<inf_mag binary32. mval binary32 k = real m"
proof (cases "m = 0")
  case True
  then show ?thesis by (intro exI [of _ 0]) (simp add: mval_0 b32)
next
  case False
  then have "1 \<le> m" by simp
  from ex_power_ivl1 [OF order_refl this]
  obtain L where L: "2 ^ L \<le> m" "m < 2 ^ (L + 1)" by auto
  from L(1) assms have "(2::nat) ^ L < 2 ^ 24" by simp
  then have L23: "L \<le> 23" using power_less_imp_less_exp [of "2::nat" L 24] by simp
  define c where "c = m * 2 ^ (23 - L)"
  have "(2::nat) ^ L * 2 ^ (23 - L) = 2 ^ 23" using L23 by (simp add: power_add [symmetric])
  moreover have "2 ^ L * 2 ^ (23 - L) \<le> m * 2 ^ (23 - L)" using L(1) by simp
  ultimately have lo: "8388608 \<le> c" unfolding c_def by simp
  have "m * 2 ^ (23 - L) < 2 ^ (L + 1) * 2 ^ (23 - L)" using L(2) by simp
  also have "\<dots> = 2 ^ 24" using L23 by (simp add: power_add [symmetric])
  finally have hi: "c < 16777216" by (simp add: c_def)
  define k where "k = (L + 126) * 8388608 + c"
  have kd: "k div 8388608 = L + 127" and km: "k mod 8388608 = c - 8388608"
    using lo hi unfolding k_def by (simp_all add: div_nat_eqI mod_nat_eqI)
  have "real c = real m * 2 powi (23 - int L)"
    using L23 by (simp add: c_def power_int_def nat_diff_distrib')
  then have "real c * 2 powi (int L - 23) = real m * (2 powi (23 - int L) * 2 powi (int L - 23))"
    by simp
  also have "\<dots> = real m"
    by (simp add: power_int_add [symmetric])
  finally have "real c * 2 powi (int L - 23) = real m" .
  moreover have "\<not> k < 8388608" by (simp add: k_def)
  moreover have "sig binary32 k = c" using lo \<open>\<not> k < 8388608\<close> by (simp add: sig_def b32 km)
  moreover have "expo binary32 k = int L - 23"
    using \<open>\<not> k < 8388608\<close> by (simp add: expo_def b32 kd)
  ultimately have "mval binary32 k = real m" by (simp add: mval_def)
  moreover have "k < inf_mag binary32" using L23 hi by (simp add: k_def b32)
  ultimately show ?thesis by blast
qed

lemma i2f_exact:
  assumes "\<bar>n\<bar> < 2 ^ 24"
  shows "valf (i2f n) = real_of_int n" "fin32 (i2f n)"
proof -
  from assms have "nat \<bar>n\<bar> < 2 ^ 24" by simp
  from nat_representable [OF this]
  obtain k where k: "k < inf_mag binary32" "mval binary32 k = real (nat \<bar>n\<bar>)" by blast
  have "round_mag binary32 (nat \<bar>n\<bar>) 1 = rnd binary32 (mval binary32 k)"
    using round_mag_link [of 1 binary32 "nat \<bar>n\<bar>"] k(2) by simp
  also have "\<dots> = k" using k(1) by (simp add: rnd_exact)
  finally have r: "round_mag binary32 (nat \<bar>n\<bar>) 1 = k" .
  from k(1) have "k < 2 ^ 31" by (simp add: b32)
  then have u: "unpack (i2f n) = Fp (n < 0) k" unfolding i2f_def r by (simp add: unpack_pack)
  from k(2) show "valf (i2f n) = real_of_int n" by (simp add: valf_def u fval_def)
  from k(1) show "fin32 (i2f n)" by (simp add: fin32_def u is_fin_def)
qed

lemma fractional_not_int:
  assumes "fractional e"
  shows "valf e \<noteq> real_of_int n"
proof
  assume eq: "valf e = real_of_int n"
  define k where "k = fp_mag (unpack e)"
  define j where "j = nat (- expo binary32 k)"
  from assms have neg: "expo binary32 k < 0" and r: "sig binary32 k mod 2 ^ j \<noteq> 0"
    by (simp_all add: fractional_def Let_def k_def j_def)
  from neg have "expo binary32 k = - int j" by (simp add: j_def)
  then have m: "mval binary32 k = real (sig binary32 k) / 2 ^ j"
    by (simp add: mval_def power_int_minus field_simps)
  define x where "x = real (sig binary32 k) / 2 ^ j"
  have "0 \<le> x" by (simp add: x_def)
  moreover have "valf e = x \<or> valf e = - x"
    by (simp add: valf_def fval_def k_def [symmetric] m x_def)
  ultimately have "x = \<bar>real_of_int n\<bar>" using eq by linarith
  then have "real (sig binary32 k) / 2 ^ j = \<bar>real_of_int n\<bar>" by (simp add: x_def)
  then have "real (sig binary32 k) = real (nat \<bar>n\<bar> * 2 ^ j)" by (simp add: field_simps)
  then have "sig binary32 k = nat \<bar>n\<bar> * 2 ^ j" by (simp only: of_nat_eq_iff)
  with r show False by simp
qed

lemma fractional_f2i:
  assumes "fractional e"
  shows "\<exists>n. f2i e = Some n \<and> \<bar>n\<bar> < 2 ^ 24"
proof -
  define k where "k = fp_mag (unpack e)"
  define j where "j = nat (- expo binary32 k)"
  from assms have fin: "is_fin binary32 (unpack e)" and neg: "expo binary32 k < 0"
    by (simp_all add: fractional_def Let_def k_def)
  have "sig binary32 k div 2 ^ j \<le> sig binary32 k" by (rule div_le_dividend)
  moreover have "sig binary32 k < 16777216" by (simp add: sig_def b32)
  ultimately have "sig binary32 k div 2 ^ j < 16777216" by (rule le_less_trans)
  then have q: "int (sig binary32 k div 2 ^ j) < 2 ^ 24" by simp
  have t: "\<bar>fp_trunc binary32 (unpack e)\<bar> = int (sig binary32 k div 2 ^ j)"
    using neg by (simp add: fp_trunc_def k_def [symmetric] j_def [symmetric] zdiv_int
        abs_of_nonneg pos_imp_zdiv_nonneg_iff)
  with q have a: "\<bar>fp_trunc binary32 (unpack e)\<bar> < 16777216" by simp
  then have "- 2147483648 \<le> fp_trunc binary32 (unpack e) \<and>
      fp_trunc binary32 (unpack e) < 2147483648"
    by linarith
  with a fin show ?thesis by (simp add: f2i_def int_range_def)
qed

lemma fractional_not_nan: "fractional e \<Longrightarrow> \<not> nan32 e"
  by (simp add: fractional_def Let_def nan32_def is_fin_def is_nan_def)

lemma pow_fractional:
  assumes b: "flt b (flit 0 1)" and e: "fractional e"
  shows "pow b e = Some (flit 0 1)"
proof -
  have ints: "valf (flit 0 1) = real_of_int 0" "valf (flit 1 1) = real_of_int 1"
    "valf (flit 2 1) = real_of_int 2" "valf (flit 3 1) = real_of_int 3"
    "valf (flit 4 1) = real_of_int 4" "valf (fneg (flit 1 1)) = real_of_int (- 1)"
    "valf (fneg (flit 2 1)) = real_of_int (- 2)"
    by (simp_all add: rnd_ev fp_ev fl_ev) (simp_all add: val_ev)
  have ne: "\<not> feq e (flit 0 1)" "\<not> feq e (flit 1 1)" "\<not> feq e (flit 2 1)"
    "\<not> feq e (flit 3 1)" "\<not> feq e (flit 4 1)" "\<not> feq e (fneg (flit 1 1))"
    "\<not> feq e (fneg (flit 2 1))"
    unfolding feq_iff ints using fractional_not_int [OF e] by blast+
  from b have bneg: "valf b < 0" "\<not> nan32 b" by (simp_all add: flt_iff lit_bits)
  have "valf (flit 1 1) = 1" by (simp add: lit_bits val_ev)
  with bneg have nb: "\<not> feq b (flit 0 1)" "\<not> feq b (flit 1 1)"
    by (simp_all add: feq_iff lit_bits)
  from bneg have sq: "sqrt_fm b = flit 0 1" by (simp add: sqrt_fm_def fle_iff lit_bits)
  from fractional_f2i [OF e] obtain n where n: "f2i e = Some n" "\<bar>n\<bar> < 2 ^ 24" by blast
  from i2f_exact(1) [OF n(2)] fractional_not_int [OF e] have "\<not> feq e (i2f n)"
    by (simp add: feq_iff)
  with ne nb sq n(1) b show ?thesis by (simp add: pow_def)
qed

text \<open>The predicate \<open>fractional\<close> holds of the finite values that are not integers.\<close>

lemma fractional_iff: "fractional e \<longleftrightarrow> fin32 e \<and> valf e \<notin> \<int>"
proof
  assume f: "fractional e"
  then have "fin32 e" by (simp add: fractional_def Let_def fin32_def)
  moreover have "valf e \<notin> \<int>" using fractional_not_int [OF f] by (auto elim: Ints_cases)
  ultimately show "fin32 e \<and> valf e \<notin> \<int>" ..
next
  assume a: "fin32 e \<and> valf e \<notin> \<int>"
  define k where "k = fp_mag (unpack e)"
  define j where "j = nat (- expo binary32 k)"
  have "mval binary32 k \<in> \<int>" if "\<not> fractional e"
  proof (cases "0 \<le> expo binary32 k")
    case True
    then have "mval binary32 k = real (sig binary32 k * 2 ^ nat (expo binary32 k))"
      by (simp add: mval_def power_int_def)
    then show ?thesis by (simp only: Ints_of_nat)
  next
    case False
    with that a have "2 ^ j dvd sig binary32 k"
      by (simp add: fractional_def Let_def fin32_def k_def j_def mod_eq_0_iff_dvd)
    then have "real (sig binary32 k div 2 ^ j) = real (sig binary32 k) / 2 ^ j"
      by (simp add: real_of_nat_div)
    moreover from False have "expo binary32 k = - int j" by (simp add: j_def)
    ultimately have "mval binary32 k = real (sig binary32 k div 2 ^ j)"
      by (simp add: mval_def power_int_minus field_simps)
    then show ?thesis by (simp only: Ints_of_nat)
  qed
  then have "valf e \<in> \<int>" if "\<not> fractional e"
    using that by (simp add: valf_def fval_def k_def)
  with a show "fractional e" by blast
qed

section \<open>The range of \<open>atan2\<close>\<close>

lemmas val64_ev = fval_def mval_def sig_def expo_def is_fin_def is_nan_def is_zero_def b64
  power_int_def power_one_over

lemma atan_consts:
  "M_PI = Fp False 4614256656552045848"
  "fp_div binary64 M_PI (to_double (flit 2 1)) = Fp False 4609753056924675352"
  "fp_div binary64 M_PI (to_double (flit 4 1)) = Fp False 4605249457297304856"
  "fp_div binary64 (fp_uminus M_PI) (to_double (flit 2 1)) = Fp True 4609753056924675352"
  "flit 273 1000 = 0x3E8BC6A8" "flit 1 (10 ^ 7) = 0x33D6BF95"
  by (simp_all add: rnd_ev fp_ev fl_ev)

lemma atan_special:
  "to_float (Fp False 4609753056924675352) = 0x3FC90FDB"
  "to_float (Fp True 4609753056924675352) = 0xBFC90FDB"
  "to_float (Fp False 4614256656552045848) = 0x40490FDB"
  "flit 157079632679489661923 (10 ^ 20) = 0x3FC90FDB"
  by (simp_all add: rnd_ev fp_ev fl_ev)

lemma rval_range:
  assumes "fval f r = rval f x" "is_fin f cl" "is_fin f ch" "fval f cl \<le> x" "x \<le> fval f ch"
  shows "is_fin f r \<and> fval f cl \<le> fval f r \<and> fval f r \<le> fval f ch"
proof -
  from assms(2,3) have m: "fp_mag cl \<le> inf_mag f" "fp_mag ch \<le> inf_mag f"
    by (simp_all add: is_fin_def)
  have lo: "fval f cl \<le> fval f r"
    using rval_mono [OF assms(4), of f] by (simp add: assms(1) rval_fval m)
  have hi: "fval f r \<le> fval f ch"
    using rval_mono [OF assms(5), of f] by (simp add: assms(1) rval_fval m)
  from assms(2,3) have "\<bar>fval f cl\<bar> < mval f (inf_mag f)" "\<bar>fval f ch\<bar> < mval f (inf_mag f)"
    by (simp_all add: is_fin_iff)
  with lo hi have "\<bar>fval f r\<bar> < mval f (inf_mag f)" by linarith
  then have "is_fin f r" by (simp add: is_fin_iff)
  with lo hi show ?thesis by simp
qed

lemma rval32_range:
  assumes "valf r = rval binary32 x" "fin32 cl" "fin32 ch" "valf cl \<le> x" "x \<le> valf ch"
  shows "fin32 r \<and> valf cl \<le> valf r \<and> valf r \<le> valf ch"
  using rval_range [of binary32 "unpack r" x "unpack cl" "unpack ch"] assms
  by (simp add: valf_def fin32_def)

lemma c32:
  "fin32 0" "fin32 0x3F000000" "fin32 0x3F800000" "fin32 0x40000000" "fin32 0x3E8BC6A8"
  "valf 0 = 0" "valf 0x3F000000 = 1 / 2" "valf 0x3F800000 = 1" "valf 0x40000000 = 2"
  "0 \<le> valf 0x3E8BC6A8" "valf 0x3E8BC6A8 \<le> 1 / 2" "0 < valf 0x33D6BF95"
  "\<not> nan32 0x33D6BF95"
  by (simp_all add: val_ev)

lemma c64:
  "is_fin binary64 (Fp False 0)" "fval binary64 (Fp False 0) = 0"
  "is_fin binary64 (Fp False 4602678819172646912)"
  "fval binary64 (Fp False 4602678819172646912) = 1 / 2"
  "is_fin binary64 (Fp False 4607182418800017408)"
  "fval binary64 (Fp False 4607182418800017408) = 1"
  "is_fin binary64 (Fp False 4609434218613702656)"
  "fval binary64 (Fp False 4609434218613702656) = 3 / 2"
  "is_fin binary64 (Fp False 4611686018427387904)"
  "fval binary64 (Fp False 4611686018427387904) = 2"
  by (simp_all add: val64_ev)

lemma pi64:
  "is_fin binary64 (Fp False 4614256656552045848)"
  "is_fin binary64 (Fp True 4614256656552045848)"
  "is_fin binary64 (Fp False 4609753056924675352)"
  "is_fin binary64 (Fp False 4605249457297304856)"
  "2 \<le> fval binary64 (Fp False 4614256656552045848)"
  "fval binary64 (Fp True 4614256656552045848) = - fval binary64 (Fp False 4614256656552045848)"
  "3 / 2 \<le> fval binary64 (Fp False 4609753056924675352)"
  "fval binary64 (Fp False 4609753056924675352) \<le> 2"
  "0 \<le> fval binary64 (Fp False 4605249457297304856)"
  "fval binary64 (Fp False 4605249457297304856) \<le> 1"
  by (simp_all add: val64_ev)

lemma to_double_range:
  assumes "fin32 a" "fval binary64 cl \<le> valf a" "valf a \<le> fval binary64 ch"
    "is_fin binary64 cl" "is_fin binary64 ch"
  shows "is_fin binary64 (to_double a) \<and> fval binary64 cl \<le> fval binary64 (to_double a) \<and>
    fval binary64 (to_double a) \<le> fval binary64 ch"
proof (rule rval_range)
  from assms(1) show "fval binary64 (to_double a) = rval binary64 (valf a)"
    by (simp add: to_double_def valf_def fin32_def fval_cvt)
qed fact+

lemma to_float_range:
  assumes "is_fin binary64 d" "valf cl \<le> fval binary64 d" "fval binary64 d \<le> valf ch"
    "fin32 cl" "fin32 ch"
  shows "fin32 (to_float d) \<and> valf cl \<le> valf (to_float d) \<and> valf (to_float d) \<le> valf ch"
proof (rule rval32_range)
  from assms(1) show "valf (to_float d) = rval binary32 (fval binary64 d)"
    by (simp add: valf_def unpack_to_float fval_cvt)
qed fact+

text \<open>The polynomial \<open>a * (pi / 4 + 0.273 * (1 - a))\<close>, a \<open>double\<close>, for \<open>a\<close> in \<open>[0, 1]\<close>.\<close>

lemma atan_poly_range:
  assumes a: "fin32 a" "0 \<le> valf a" "valf a \<le> 1"
  defines "m \<equiv> fp_mul binary64 (to_double a)
      (fp_add binary64 (Fp False 4605249457297304856)
         (to_double (fmul 0x3E8BC6A8 (fsub 0x3F800000 a))))"
  shows "is_fin binary64 m \<and> 0 \<le> fval binary64 m \<and> fval binary64 m \<le> 3 / 2"
proof -
  define t1 where "t1 = fsub 0x3F800000 a"
  define t2 where "t2 = fmul 0x3E8BC6A8 t1"
  define s where "s = fp_add binary64 (Fp False 4605249457297304856) (to_double t2)"
  have "valf t1 = rval binary32 (1 - valf a)" using a(1) by (simp add: t1_def valf_fsub c32)
  from rval32_range [OF this, of 0 "0x3F800000"] a
  have t1: "fin32 t1" "0 \<le> valf t1" "valf t1 \<le> 1" by (simp_all add: c32)
  have "valf t2 = rval binary32 (valf 0x3E8BC6A8 * valf t1)"
    using t1(1) by (simp add: t2_def valf_fmul c32)
  moreover have "valf 0x3E8BC6A8 * valf t1 \<le> (1 / 2) * 1"
    using t1 c32(10,11) by (intro mult_mono) simp_all
  moreover have "0 \<le> valf 0x3E8BC6A8 * valf t1" using t1 c32(10) by simp
  ultimately have t2: "fin32 t2" "0 \<le> valf t2" "valf t2 \<le> 1 / 2"
    using rval32_range [of t2 "valf 0x3E8BC6A8 * valf t1" 0 "0x3F000000"] by (simp_all add: c32)
  from to_double_range [of t2 "Fp False 0" "Fp False 4602678819172646912"] t2
  have d2: "is_fin binary64 (to_double t2)" "0 \<le> fval binary64 (to_double t2)"
    "fval binary64 (to_double t2) \<le> 1 / 2"
    by (simp_all add: c64)
  have "fval binary64 s
      = rval binary64 (fval binary64 (Fp False 4605249457297304856) + fval binary64 (to_double t2))"
    unfolding s_def using pi64(4) d2(1) by (rule fval_add)
  from rval_range [OF this, of "Fp False 0" "Fp False 4609434218613702656"] d2 pi64(9,10)
  have s: "is_fin binary64 s" "0 \<le> fval binary64 s" "fval binary64 s \<le> 3 / 2"
    by (simp_all add: c64)
  from to_double_range [of a "Fp False 0" "Fp False 4607182418800017408"] a
  have da: "is_fin binary64 (to_double a)" "0 \<le> fval binary64 (to_double a)"
    "fval binary64 (to_double a) \<le> 1"
    by (simp_all add: c64)
  have m: "m = fp_mul binary64 (to_double a) s" by (simp add: m_def s_def t2_def t1_def)
  have "fval binary64 m = rval binary64 (fval binary64 (to_double a) * fval binary64 s)"
    unfolding m using da(1) s(1) by (rule fval_mul)
  moreover have "fval binary64 (to_double a) * fval binary64 s \<le> 1 * (3 / 2)"
    using da s by (intro mult_mono) simp_all
  moreover have "0 \<le> fval binary64 (to_double a) * fval binary64 s" using da s by simp
  ultimately show ?thesis
    using rval_range [of binary64 m "fval binary64 (to_double a) * fval binary64 s"
        "Fp False 0" "Fp False 4609434218613702656"]
    by (simp add: c64)
qed

lemma quotient_range:
  assumes "fin32 p" "fin32 q" "0 \<le> valf p" "valf p \<le> valf q" "0 < valf q"
  shows "fin32 (fdiv p q) \<and> 0 \<le> valf (fdiv p q) \<and> valf (fdiv p q) \<le> 1"
proof -
  from assms have "valf (fdiv p q) = rval binary32 (valf p / valf q)" by (simp add: valf_fdiv)
  moreover from assms have "0 \<le> valf p / valf q" "valf p / valf q \<le> 1" by simp_all
  ultimately show ?thesis
    using rval32_range [of "fdiv p q" "valf p / valf q" 0 "0x3F800000"] by (simp add: c32)
qed

lemma atan_divs:
  "fp_div binary64 (Fp False 4614256656552045848) (to_double 0x40000000)
     = Fp False 4609753056924675352"
  "fp_div binary64 (Fp False 4614256656552045848) (to_double 0x40800000)
     = Fp False 4605249457297304856"
  "fp_div binary64 (Fp True 4614256656552045848) (to_double 0x40000000)
     = Fp True 4609753056924675352"
  "flit 4 1 = 0x40800000"
  by (simp_all add: rnd_ev fp_ev fl_ev)

lemma eps_bits: "flit (Suc 0) 10000000 = 0x33D6BF95" "flit 4 (Suc 0) = 0x40800000"
  using atan_consts(6) atan_divs(4) by simp_all

lemma atan2_general:
  assumes "\<not> flt (fabs x) 0x33D6BF95"
  shows "atan2 y x =
    (let angle =
       (if fle (fabs y) (fabs x) then
          to_float (fp_mul binary64 (to_double (fdiv (fabs y) (fabs x)))
            (fp_add binary64 (Fp False 4605249457297304856)
               (to_double (fmul 0x3E8BC6A8 (fsub 0x3F800000 (fdiv (fabs y) (fabs x)))))))
        else
          to_float (fp_sub binary64 (Fp False 4609753056924675352)
            (fp_mul binary64 (to_double (fdiv (fabs x) (fabs y)))
              (fp_add binary64 (Fp False 4605249457297304856)
                 (to_double (fmul 0x3E8BC6A8 (fsub 0x3F800000 (fdiv (fabs x) (fabs y)))))))))
     in if flt x 0 then
          (if fle 0 y then to_float (fp_sub binary64 (Fp False 4614256656552045848) (to_double angle))
           else to_float (fp_add binary64 (Fp True 4614256656552045848) (to_double angle)))
        else (if flt y 0 then fneg angle else angle))"
  using assms
  by (simp add: atan2_def atan_consts(1,5) eps_bits atan_divs lit_bits fp_uminus_def Let_def)

lemma atan2_special:
  assumes "flt (fabs x) 0x33D6BF95"
  shows "atan2 y x = (if flt (fabs y) 0x33D6BF95 then 0
                      else if fle 0 y then 0x3FC90FDB else 0xBFC90FDB)"
  using assms
  by (simp add: atan2_def atan_consts(1,5) eps_bits atan_divs lit_bits fp_uminus_def atan_special)

lemma pi32:
  "fval binary64 (Fp False 4614256656552045848) \<le> valf pi_f" "2 \<le> valf pi_f"
  "valf 0x3FC90FDB \<le> valf pi_f" "0 \<le> valf 0x3FC90FDB" "valf 0xBFC90FDB = - valf 0x3FC90FDB"
  "\<not> nan32 0x3FC90FDB" "\<not> nan32 0xBFC90FDB"
  by (simp_all add: cvals) (simp_all add: val_ev val64_ev)

lemma atan2_range:
  assumes y: "fin32 y" and x: "fin32 x"
  shows "\<not> nan32 (atan2 y x) \<and> - valf pi_f \<le> valf (atan2 y x) \<and> valf (atan2 y x) \<le> valf pi_f"
proof (cases "flt (fabs x) 0x33D6BF95")
  case True
  from pi32(2-5) have "- valf pi_f \<le> 0" "0 \<le> valf pi_f" "- valf pi_f \<le> valf 0xBFC90FDB"
    "valf 0xBFC90FDB \<le> valf pi_f" "- valf pi_f \<le> valf 0x3FC90FDB"
    by linarith+
  with pi32(3,6,7) show ?thesis by (simp add: atan2_special [OF True])
next
  case False
  with x have "valf 0x33D6BF95 \<le> \<bar>valf x\<bar>" by (simp add: flt_iff fin32_not_nan c32(13))
  with c32(12) have xpos: "0 < \<bar>valf x\<bar>" by linarith
  define p where "p = (\<lambda>a. fp_mul binary64 (to_double a)
      (fp_add binary64 (Fp False 4605249457297304856)
         (to_double (fmul 0x3E8BC6A8 (fsub 0x3F800000 a)))))"
  define angle where "angle =
    (if fle (fabs y) (fabs x) then to_float (p (fdiv (fabs y) (fabs x)))
     else to_float (fp_sub binary64 (Fp False 4609753056924675352) (p (fdiv (fabs x) (fabs y)))))"
  have eq: "atan2 y x =
    (if flt x 0 then
       (if fle 0 y then to_float (fp_sub binary64 (Fp False 4614256656552045848) (to_double angle))
        else to_float (fp_add binary64 (Fp True 4614256656552045848) (to_double angle)))
     else (if flt y 0 then fneg angle else angle))"
    unfolding atan2_general [OF False] angle_def p_def Let_def ..
  have prange: "is_fin binary64 (p a) \<and> 0 \<le> fval binary64 (p a) \<and> fval binary64 (p a) \<le> 3 / 2"
    if "fin32 a" "0 \<le> valf a" "valf a \<le> 1" for a
    unfolding p_def using that by (rule atan_poly_range)
  have ang: "fin32 angle \<and> 0 \<le> valf angle \<and> valf angle \<le> 2"
  proof (cases "fle (fabs y) (fabs x)")
    case True
    then have "\<bar>valf y\<bar> \<le> \<bar>valf x\<bar>" by (simp add: fle_iff)
    with quotient_range [of "fabs y" "fabs x"] x y xpos
    have "fin32 (fdiv (fabs y) (fabs x))" "0 \<le> valf (fdiv (fabs y) (fabs x))"
      "valf (fdiv (fabs y) (fabs x)) \<le> 1"
      by simp_all
    from prange [OF this] to_float_range [of "p (fdiv (fabs y) (fabs x))" 0 "0x40000000"]
    show ?thesis using True by (simp add: angle_def c32)
  next
    case False
    with x y have lt: "\<bar>valf x\<bar> \<le> \<bar>valf y\<bar>" "0 < \<bar>valf y\<bar>"
      using xpos by (simp_all add: fle_iff fin32_not_nan)
    with quotient_range [of "fabs x" "fabs y"] x y
    have "fin32 (fdiv (fabs x) (fabs y))" "0 \<le> valf (fdiv (fabs x) (fabs y))"
      "valf (fdiv (fabs x) (fabs y)) \<le> 1"
      by simp_all
    note m = prange [OF this]
    define d where "d = fp_sub binary64 (Fp False 4609753056924675352) (p (fdiv (fabs x) (fabs y)))"
    have "fval binary64 d = rval binary64 (fval binary64 (Fp False 4609753056924675352)
        - fval binary64 (p (fdiv (fabs x) (fabs y))))"
      unfolding d_def using pi64(3) m by (intro fval_sub) simp_all
    from rval_range [OF this, of "Fp False 0" "Fp False 4609753056924675352"] m pi64(3,7,8)
    have "is_fin binary64 d" "0 \<le> fval binary64 d" "fval binary64 d \<le> 2"
      by (simp_all add: c64)
    with to_float_range [of d 0 "0x40000000"] show ?thesis
      using False by (simp add: angle_def d_def c32)
  qed
  from ang to_double_range [of angle "Fp False 0" "Fp False 4611686018427387904"]
  have da: "is_fin binary64 (to_double angle)" "0 \<le> fval binary64 (to_double angle)"
    "fval binary64 (to_double angle) \<le> 2"
    by (simp_all add: c64)
  have A: "fin32 (to_float d) \<and> - valf pi_f \<le> valf (to_float d) \<and> valf (to_float d) \<le> valf pi_f"
    if "is_fin binary64 d" "- fval binary64 (Fp False 4614256656552045848) \<le> fval binary64 d"
      "fval binary64 d \<le> fval binary64 (Fp False 4614256656552045848)" for d
    using to_float_range [of d "fneg pi_f" pi_f] that pi32(1) by (simp add: cvals)
  have 1: "\<not> nan32 r \<and> - valf pi_f \<le> valf r \<and> valf r \<le> valf pi_f"
    if "r = to_float (fp_sub binary64 (Fp False 4614256656552045848) (to_double angle))" for r
  proof -
    define d where "d = fp_sub binary64 (Fp False 4614256656552045848) (to_double angle)"
    have "fval binary64 d = rval binary64 (fval binary64 (Fp False 4614256656552045848)
        - fval binary64 (to_double angle))"
      unfolding d_def using pi64(1) da(1) by (rule fval_sub)
    from rval_range [OF this, of "Fp False 0" "Fp False 4614256656552045848"] da pi64(1,5)
    have "is_fin binary64 d" "0 \<le> fval binary64 d"
      "fval binary64 d \<le> fval binary64 (Fp False 4614256656552045848)"
      by (simp_all add: c64)
    with A [of d] pi64(5) show ?thesis by (simp add: that d_def fin32_not_nan)
  qed
  have 2: "\<not> nan32 r \<and> - valf pi_f \<le> valf r \<and> valf r \<le> valf pi_f"
    if "r = to_float (fp_add binary64 (Fp True 4614256656552045848) (to_double angle))" for r
  proof -
    define d where "d = fp_add binary64 (Fp True 4614256656552045848) (to_double angle)"
    have "fval binary64 d = rval binary64 (fval binary64 (Fp True 4614256656552045848)
        + fval binary64 (to_double angle))"
      unfolding d_def using pi64(2) da(1) by (rule fval_add)
    from rval_range [OF this, of "Fp True 4614256656552045848" "Fp False 0"] da pi64(1,2,5,6)
    have "is_fin binary64 d" "- fval binary64 (Fp False 4614256656552045848) \<le> fval binary64 d"
      "fval binary64 d \<le> 0"
      by (simp_all add: c64)
    with A [of d] pi64(5) show ?thesis by (simp add: that d_def fin32_not_nan)
  qed
  from ang pi32(2) have 3: "\<not> nan32 angle" "- valf pi_f \<le> valf angle" "valf angle \<le> valf pi_f"
    "- valf pi_f \<le> - valf angle" "- valf angle \<le> valf pi_f"
    by (simp_all add: fin32_not_nan)
  from 1 2 3 show ?thesis unfolding eq by simp
qed

section \<open>Bounds on the sine pipeline\<close>

lemma quad_bound:
  fixes t :: real
  assumes "0 < \<alpha>" "\<beta>\<^sup>2 \<le> 4 * \<alpha> * \<gamma>"
  shows "\<beta> * t - \<alpha> * t\<^sup>2 \<le> \<gamma>"
proof -
  have "0 \<le> (2 * \<alpha> * t - \<beta>)\<^sup>2" by simp
  then have "4 * \<alpha> * (\<beta> * t - \<alpha> * t\<^sup>2) \<le> \<beta>\<^sup>2"
    by (simp add: power2_eq_square algebra_simps)
  with assms(2) have "4 * \<alpha> * (\<beta> * t - \<alpha> * t\<^sup>2) \<le> 4 * \<alpha> * \<gamma>" by linarith
  with assms(1) show ?thesis by simp
qed

section \<open>The range of the parabola and of the correction pass\<close>

lemma tvals:
  "\<not> nan32 0x3F7FFFFF" "valf 0x3F7FFFFF = 16777215 / 16777216"
  "\<not> nan32 0x3F800000" "\<not> nan32 0x40000000"
  by (simp_all add: val_ev)

text \<open>
  With \<open>u = 2 ^ -24\<close>, the difference of the two rounded terms of the parabola stays below
  \<open>1 + 3 u\<close>. Where the linear term is below 2, the three roundings err by at most
  \<open>u\<close>, \<open>u / 2\<close> and \<open>u\<close>, and the exact parabola is at most 1. Where the linear term
  is at least 2 and \<open>t \<le> 8 / 5\<close>, the linear term is a multiple of \<open>4 u\<close> and the
  quadratic term, if at least 1, a multiple of \<open>2 u\<close>, so a difference below \<open>1 + 4 u\<close> is
  at most \<open>1 + 2 u\<close>. For \<open>t > 8 / 5\<close> the difference is below 1.
\<close>

lemma parabola_upper:
  fixes t :: real
  assumes t: "0 \<le> t" "t \<le> 13176795 / 4194304"
  shows "rval binary32 (t * (10680707 / 8388608))
       - rval binary32 (rval binary32 (6799549 / 16777216 * t) * t) < 1 + 3 / 16777216"
proof -
  define u :: real where "u = 1 / 16777216"
  define Bq :: real where "Bq = 10680707 / 8388608"
  define Cq :: real where "Cq = 6799549 / 16777216"
  define a where "a = rval binary32 (t * Bq)"
  define c where "c = rval binary32 (Cq * t)"
  define b where "b = rval binary32 (c * t)"
  define Q where "Q = Bq * t - Cq * t\<^sup>2"
  have x1: "0 \<le> t * Bq" and x2: "0 \<le> Cq * t" using t by (simp_all add: Bq_def Cq_def)
  have c0: "0 \<le> c" using x2 by (simp add: c_def rval_nonneg)
  with t have x3: "0 \<le> c * t" by simp
  have q: "Q \<le> 1"
    unfolding Q_def by (rule quad_bound) (simp_all add: Bq_def Cq_def power2_eq_square)
  have lo: "Cq * t\<^sup>2 - e * t \<le> c * t" if "Cq * t - e \<le> c" for e
  proof -
    from that t(1) have "(Cq * t - e) * t \<le> c * t" by (rule mult_right_mono)
    then show ?thesis by (simp add: power2_eq_square algebra_simps)
  qed
  have sq: "k\<^sup>2 \<le> t\<^sup>2" if "0 \<le> k" "k \<le> t" for k
    using that by (simp add: power_mono)
  consider (R1) "t * Bq < 2" | (R2) "2 \<le> t * Bq" "t \<le> 8 / 5" | (R3) "8 / 5 < t" by linarith
  then have "a - b < 1 + 3 * u"
  proof cases
    case R1
    then have t1: "t < 16777216 / 10680707" by (simp add: Bq_def)
    from rval32_err_small(2) [OF x1 R1] have ea: "a \<le> t * Bq + u"
      unfolding a_def u_def by linarith
    from t1 have "Cq * t < 1" by (simp add: Cq_def)
    from rval32_err_small(1) [OF x2 this]
    have ec: "Cq * t - u / 2 \<le> c" "c \<le> Cq * t + u / 2" unfolding c_def u_def by linarith+
    from ec(2) t1 have "c \<le> 13 / 20" by (simp add: Cq_def u_def)
    moreover from t1 have "t \<le> 8 / 5" by simp
    ultimately have "c * t \<le> 13 / 20 * (8 / 5)" using c0 t(1) by (intro mult_mono) simp_all
    then have "c * t < 2" by simp
    from rval32_err_small(2) [OF x3 this] have eb: "c * t - u \<le> b"
      unfolding b_def u_def by linarith
    from lo [OF ec(1)] ea eb have "a - b \<le> Q + 2 * u + u / 2 * t"
      by (simp add: Q_def algebra_simps)
    moreover have "u / 2 * t \<le> u / 2 * (8 / 5)" using \<open>t \<le> 8 / 5\<close> by (simp add: u_def)
    ultimately show ?thesis using q by (simp add: u_def)
  next
    case R2
    then have t2: "16777216 / 10680707 \<le> t" by (simp add: Bq_def)
    from R2(2) have "t * Bq < 4" by (simp add: Bq_def)
    from rval32_err_small(3) [OF x1 this]
    have ea: "a \<le> t * Bq + 2 * u" unfolding a_def u_def by linarith
    from R2(2) have "Cq * t < 1" by (simp add: Cq_def)
    from rval32_err_small(1) [OF x2 this]
    have ec: "Cq * t - u / 2 \<le> c" "c \<le> Cq * t + u / 2" unfolding c_def u_def by linarith+
    from ec(2) R2(2) have "c \<le> 13 / 20" by (simp add: Cq_def u_def)
    then have "c * t \<le> 13 / 20 * (8 / 5)" using R2(2) c0 t(1) by (intro mult_mono) simp_all
    then have "c * t < 2" by simp
    from rval32_err_small(2) [OF x3 this] have eb: "c * t - u \<le> b"
      unfolding b_def u_def by linarith
    have ut: "u / 2 * t \<le> u / 2 * (8 / 5)" using R2(2) by (simp add: u_def)
    from rval32_ge [of "0x40000000" "t * Bq"] R2(1) have a2: "2 \<le> a"
      by (simp add: a_def c32 tvals)
    from sq [OF _ t2] have "Cq * (16777216 / 10680707)\<^sup>2 \<le> Cq * t\<^sup>2"
      by (intro mult_left_mono) (simp_all add: Cq_def)
    with lo [OF ec(1)] ut have "16777215 / 16777216 \<le> c * t"
      by (simp add: Cq_def u_def power2_eq_square)
    from rval32_ge [of "0x3F7FFFFF" "c * t"] this have b1: "1 - u \<le> b"
      by (simp add: b_def tvals u_def)
    from lo [OF ec(1)] ea eb have "a - b \<le> Q + 3 * u + u / 2 * t"
      by (simp add: Q_def algebra_simps)
    with ut q have ub: "a - b < 1 + 4 * u" by (simp add: u_def)
    show ?thesis
    proof (cases "1 \<le> b")
      case True
      from rval32_grid_small(2) [of "t * Bq"] a2 obtain A :: nat where A: "a = real A / 4194304"
        by (auto simp: a_def)
      from rval32_grid_small(1) [of "c * t"] True obtain N :: nat where N: "b = real N / 8388608"
        by (auto simp: b_def)
      from ub have "real_of_int (2 * int A - int N) < real_of_int 8388610"
        by (simp add: A N u_def)
      then have "2 * int A - int N < 8388610" by (simp only: of_int_less_iff)
      then have "2 * int A - int N \<le> 8388609" by simp
      then have "real_of_int (2 * int A - int N) \<le> real_of_int 8388609"
        by (simp only: of_int_le_iff)
      then have "a - b \<le> 1 + 2 * u" by (simp add: A N u_def)
      then show ?thesis by (simp add: u_def)
    next
      case False
      have "a \<le> 2"
      proof (rule ccontr)
        assume "\<not> a \<le> 2"
        then have gt: "2 < a" by simp
        from rval32_grid_small(2) [of "t * Bq"] a2 obtain A :: nat where A: "a = real A / 4194304"
          by (auto simp: a_def)
        from gt have "real 8388608 < real A" by (simp add: A)
        then have "8388608 < A" by (simp only: of_nat_less_iff)
        then have "8388609 \<le> A" by simp
        then have "real 8388609 \<le> real A" by (simp only: of_nat_le_iff)
        then have "8388609 / 4194304 \<le> a" by (simp add: A)
        with ea have "16777217 / 10680707 \<le> t" by (simp add: Bq_def u_def)
        from sq [OF _ this] have "Cq * (16777217 / 10680707)\<^sup>2 \<le> Cq * t\<^sup>2"
          by (intro mult_left_mono) (simp_all add: Cq_def)
        with lo [OF ec(1)] ut have "1 \<le> c * t"
          by (simp add: Cq_def u_def power2_eq_square)
        from rval32_ge [of "0x3F800000" "c * t"] this have "1 \<le> b"
          by (simp add: b_def tvals c32)
        with False show False by simp
      qed
      with b1 show ?thesis by (simp add: u_def)
    qed
  next
    case R3
    from t(2) have "t * Bq < 4" by (simp add: Bq_def)
    from rval32_err_small(3) [OF x1 this]
    have ea: "a \<le> t * Bq + 2 * u" unfolding a_def u_def by linarith
    from t(2) have "Cq * t < 2" by (simp add: Cq_def)
    from rval32_err_small(2) [OF x2 this]
    have ec: "Cq * t - u \<le> c" "c \<le> Cq * t + u" unfolding c_def u_def by linarith+
    from ec(2) t(2) have "c \<le> 13 / 10" by (simp add: Cq_def u_def)
    then have "c * t \<le> 13 / 10 * (13176795 / 4194304)" using t c0 by (intro mult_mono) simp_all
    then have "c * t < 8" by simp
    from rval32_err_small(4) [OF x3 this] have eb: "c * t - 4 * u \<le> b"
      unfolding b_def u_def by linarith
    from lo [OF ec(1)] ea eb have "a - b \<le> Q + 6 * u + u * t"
      by (simp add: Q_def algebra_simps)
    moreover have "u * t \<le> u * 4" using t(2) by (simp add: u_def)
    moreover have "Q \<le> Bq * (8 / 5) - Cq * (64 / 25)"
    proof -
      have "0 \<le> t - 8 / 5" using R3 by simp
      moreover have "Bq - Cq * (t + 8 / 5) \<le> 0" using R3 by (simp add: Bq_def Cq_def)
      ultimately have "(t - 8 / 5) * (Bq - Cq * (t + 8 / 5)) \<le> 0"
        by (rule mult_nonneg_nonpos)
      moreover have "(t - 8 / 5) * (Bq - Cq * (t + 8 / 5))
          = Bq * t - Cq * t\<^sup>2 - (Bq * (8 / 5) - Cq * (64 / 25))"
        by (simp add: power2_eq_square field_simps)
      ultimately show ?thesis by (simp add: Q_def)
    qed
    ultimately show ?thesis by (simp add: u_def Bq_def Cq_def)
  qed
  then show ?thesis by (simp add: a_def b_def c_def u_def Bq_def Cq_def mult.commute)
qed

text \<open>A sum below \<open>1 + 3 u\<close> is rounded to \<open>1 + 2 u\<close> at most.\<close>

lemma edge_round:
  assumes "x < 1 + 3 / 16777216"
  shows "rval binary32 x \<le> 8388609 / 8388608"
proof -
  have m: "mval binary32 1065353217 = 8388609 / 8388608"
    "2 powi expo binary32 1065353217 / 2 = (1::real) / 16777216"
    by (simp_all add: val_ev)
  show ?thesis
  proof (cases "x \<le> mval binary32 1065353217")
    case True
    then have "rval binary32 x \<le> rval binary32 (mval binary32 1065353217)" by (rule rval_mono)
    also have "\<dots> = mval binary32 1065353217" by (rule rval_mval) (simp add: b32)
    finally show ?thesis by (simp add: m)
  next
    case False
    then have x: "mval binary32 1065353217 \<le> x" by simp
    with assms have "x - mval binary32 1065353217 < 2 powi expo binary32 1065353217 / 2"
      unfolding m by linarith
    from round_down [OF _ _ x this] have "rnd binary32 x = 1065353217" by (simp add: b32)
    moreover have "\<not> x < 0" using x m(1) by linarith
    ultimately show ?thesis by (simp add: rval_def m)
  qed
qed

lemma parabola_lower:
  fixes t :: real
  assumes t: "0 \<le> t" "t \<le> 13176795 / 4194304"
  shows "- (1 / 2) \<le> rval binary32 (t * (10680707 / 8388608))
       - rval binary32 (rval binary32 (6799549 / 16777216 * t) * t)"
proof -
  define u :: real where "u = 1 / 16777216"
  define \<eta> :: real where "\<eta> = 1 / 2 ^ 150"
  define Bq :: real where "Bq = 10680707 / 8388608"
  define Cq :: real where "Cq = 6799549 / 16777216"
  define \<kappa> :: real where "\<kappa> = Cq * (13176795 / 4194304) * (1 + u) + \<eta>"
  define a where "a = rval binary32 (t * Bq)"
  define c where "c = rval binary32 (Cq * t)"
  define b where "b = rval binary32 (c * t)"
  have u: "0 \<le> u" "u \<le> 1" and e: "0 \<le> \<eta>" by (simp_all add: u_def \<eta>_def)
  have "\<bar>t * Bq\<bar> \<le> 2 ^ 127" using t by (simp add: Bq_def abs_if)
  from rval32_err [OF this] t have a: "t * Bq * (1 - u) - \<eta> \<le> a"
    by (simp add: a_def u_def \<eta>_def Bq_def abs_if algebra_simps split: if_splits)
  have "\<bar>Cq * t\<bar> \<le> 2 ^ 127" using t by (simp add: Cq_def abs_if)
  from rval32_err [OF this] t have c: "c \<le> Cq * t * (1 + u) + \<eta>"
    by (simp add: c_def u_def \<eta>_def Cq_def abs_if algebra_simps split: if_splits)
  have "Cq * t * (1 + u) \<le> Cq * (13176795 / 4194304) * (1 + u)"
    using t(2) by (simp add: Cq_def u_def)
  with c have ck: "c \<le> \<kappa>" by (simp add: \<kappa>_def)
  have c0: "0 \<le> c" using t by (simp add: c_def Cq_def rval_nonneg)
  have k4: "\<kappa> \<le> 4" by (simp add: \<kappa>_def Cq_def u_def \<eta>_def)
  have "c \<le> 4" "t \<le> 4" using ck k4 t(2) by simp_all
  then have "c * t \<le> 4 * 4" using c0 t(1) by (intro mult_mono) simp_all
  with c0 t have ct: "0 \<le> c * t" "c * t \<le> 16" by simp_all
  then have "\<bar>c * t\<bar> \<le> 2 ^ 127" by simp
  from rval32_err [OF this] ct(1) have b: "b \<le> c * t * (1 + u) + \<eta>"
    by (simp add: b_def u_def \<eta>_def abs_if algebra_simps split: if_splits)
  have "c * t \<le> \<kappa> * t" using ck t(1) by (rule mult_right_mono)
  moreover have "0 \<le> 1 + u" using u(1) by simp
  ultimately have "c * t * (1 + u) \<le> \<kappa> * t * (1 + u)" by (rule mult_right_mono)
  with a b have "t * (Bq * (1 - u) - \<kappa> * (1 + u)) - 2 * \<eta> \<le> a - b"
    by (simp add: algebra_simps)
  moreover have "- (1 / 8) \<le> Bq * (1 - u) - \<kappa> * (1 + u)"
    by (simp add: \<kappa>_def Bq_def Cq_def u_def \<eta>_def)
  then have "t * (- (1 / 8)) \<le> t * (Bq * (1 - u) - \<kappa> * (1 + u))"
    using t(1) by (rule mult_left_mono)
  moreover have "- (1 / 2) \<le> t * (- (1 / 8)) - 2 * \<eta>" using t(2) by (simp add: \<eta>_def)
  ultimately have "- (1 / 2) \<le> a - b" by linarith
  then show ?thesis by (simp add: a_def b_def c_def Bq_def Cq_def mult.commute)
qed

lemma bvals:
  "valf B = 10680707 / 8388608" "valf C = 6799549 / 16777216" "fin32 B" "fin32 C" "fin32 P"
  "0 \<le> valf P" "valf P \<le> 1"
  by (simp_all add: cbits val_ev)

lemma edge32:
  "fin32 0x3F800002" "valf 0x3F800002 = 4194305 / 4194304"
  "fin32 0xBF000000" "valf 0xBF000000 = - (1 / 2)"
  "fin32 0x3F800001" "valf 0x3F800001 = 8388609 / 8388608"
  by (simp_all add: val_ev)

text \<open>The base term for a reduced argument that is not negative.\<close>

lemma parabola_range_pos:
  assumes t: "fin32 t" "0 \<le> valf t" "valf t \<le> valf pi_f"
  defines "s \<equiv> fsub (fmul t B) (fmul (fmul C t) t)"
  shows "fin32 s \<and> - (1 / 2) \<le> valf s \<and> valf s \<le> 8388609 / 8388608"
proof -
  from t have t4: "valf t \<le> 4" and tp: "valf t \<le> 13176795 / 4194304"
    by (simp_all add: cvals)
  with t have b: "bnd t 4" by (simp add: bnd_def)
  from bnd_fmul [OF b bnd_consts(1), of 3] have 1: "fin32 (fmul t B)" by (simp add: bnd_def)
  from bnd_fmul [OF bnd_consts(2) b, of 2] have 2: "bnd (fmul C t) (2 ^ 2)" by simp
  from bnd_fmul [OF 2 b, of 4] have 3: "fin32 (fmul (fmul C t) t)" by (simp add: bnd_def)
  have v: "valf s = rval binary32 (rval binary32 (valf t * (10680707 / 8388608))
      - rval binary32 (rval binary32 (6799549 / 16777216 * valf t) * valf t))"
    using t(1) 1 2 3 by (simp add: s_def valf_fsub valf_fmul bvals bnd_def)
  note up = parabola_upper [OF t(2) tp]
  from rval32_range [OF v, of "0xBF000000" "0x3F800002"] up parabola_lower [OF t(2) tp]
  have "fin32 s" "- (1 / 2) \<le> valf s" by (simp_all add: edge32)
  moreover from edge_round [OF up] have "valf s \<le> 8388609 / 8388608" by (simp only: v)
  ultimately show ?thesis by simp
qed

text \<open>The base term for a reduced argument: \<open>|s| \<le> 1 + 2 ^ -23\<close>.\<close>

lemma parabola_range:
  assumes "fle (fneg pi_f) t" "fle t pi_f"
  shows "fin32 (spec_parabola t) \<and> \<bar>valf (spec_parabola t)\<bar> \<le> 8388609 / 8388608"
proof -
  note r = reduced_bnd [OF assms]
  from r(1) have ft: "fin32 t" by (rule bndD)
  show ?thesis
  proof (cases "flt t zero")
    case False
    with r(2) have "0 \<le> valf t" by (simp add: flt_iff zero_bits)
    from parabola_range_pos [OF ft this r(4)] False show ?thesis
      unfolding parabola_eq [OF r(1), symmetric] by (simp add: abs_if)
  next
    case True
    then have neg: "valf t < 0" by (simp add: flt_iff zero_bits)
    define w where "w = fneg t"
    have w: "fin32 w" "0 \<le> valf w" "valf w \<le> valf pi_f" "valf t = - valf w"
      using ft neg r(3) by (simp_all add: w_def)
    have b: "bnd t 4" "bnd w 4" using r(1) by (simp_all add: w_def bnd_fneg)
    from bnd_fmul [OF b(1) bnd_consts(1), of 3] have 1: "fin32 (fmul t B)" by (simp add: bnd_def)
    from bnd_fmul [OF bnd_consts(2) b(1), of 2] have 2: "bnd (fmul C t) (2 ^ 2)" by simp
    from bnd_fmul [OF 2 b(1), of 4] have 3: "fin32 (fmul (fmul C t) t)" by (simp add: bnd_def)
    from bnd_fmul [OF b(2) bnd_consts(1), of 3] have w1: "fin32 (fmul w B)" by (simp add: bnd_def)
    from bnd_fmul [OF bnd_consts(2) b(2), of 2] have w2: "bnd (fmul C w) (2 ^ 2)" by simp
    from bnd_fmul [OF w2 b(2), of 4] have w3: "fin32 (fmul (fmul C w) w)" by (simp add: bnd_def)
    have m1: "valf (fmul t B) = - valf (fmul w B)"
      using ft w(1) by (simp add: valf_fmul bvals w(4) rval_minus)
    have "valf (fmul C t) = - valf (fmul C w)"
      using ft w(1) by (simp add: valf_fmul bvals w(4) rval_minus)
    then have m2: "valf (fmul (fmul C t) t) = valf (fmul (fmul C w) w)"
      using ft w(1) 2 w2 by (simp add: valf_fmul bnd_def w(4))
    have "valf (fadd (fmul t B) (fmul (fmul C t) t))
        = rval binary32 (- (valf (fmul w B) - valf (fmul (fmul C w) w)))"
      using 1 3 by (simp add: valf_fadd m1 m2)
    also have "\<dots> = - rval binary32 (valf (fmul w B) - valf (fmul (fmul C w) w))"
      by (rule rval_minus)
    also have "\<dots> = - valf (fsub (fmul w B) (fmul (fmul C w) w))"
      using w1 w3 by (simp only: valf_fsub)
    finally have v: "valf (fadd (fmul t B) (fmul (fmul C t) t))
        = - valf (fsub (fmul w B) (fmul (fmul C w) w))" .
    have "\<bar>valf (fadd (fmul t B) (fmul (fmul C t) t))\<bar> \<le> 8388609 / 8388608"
      using parabola_range_pos [OF w(1,2,3)] unfolding v by (simp add: abs_if)
    then have "fin32 (fadd (fmul t B) (fmul (fmul C t) t))" by (intro fin32_bound) simp
    with \<open>\<bar>valf (fadd (fmul t B) (fmul (fmul C t) t))\<bar> \<le> 8388609 / 8388608\<close> True
    show ?thesis unfolding parabola_eq [OF r(1), symmetric] by simp
  qed
qed

text \<open>The correction pass brings a value of \<open>[-1, 1]\<close> nearer to zero or leaves it.\<close>

lemma correction_range:
  assumes s: "fin32 s" "\<bar>valf s\<bar> \<le> 1"
  shows "fin32 (spec_correction s) \<and> \<bar>valf (spec_correction s)\<bar> \<le> 1"
proof -
  define q where "q = fmul s (fabs s)"
  define d where "d = fsub q s"
  define e where "e = fmul P d"
  have c: "spec_correction s = fadd s e"
    by (simp add: spec_correction_def spec_consts e_def d_def q_def)
  have ns: "fin32 (fneg s)" "valf (fneg s) = - valf s" using s by simp_all
  have vq: "valf q = rval binary32 (valf s * \<bar>valf s\<bar>)"
    using s by (simp add: q_def valf_fmul)
  show ?thesis
  proof (cases "0 \<le> valf s")
    case True
    with s(2) have "valf s * valf s \<le> valf s * 1" by (intro mult_left_mono) simp_all
    with True rval32_range [OF vq, of 0 s] s
    have q: "fin32 q" "0 \<le> valf q" "valf q \<le> valf s" by (simp_all add: c32)
    have "valf d = rval binary32 (valf q - valf s)" using q s by (simp add: d_def valf_fsub)
    from rval32_range [OF this, of "fneg s" 0] ns q
    have d: "fin32 d" "- valf s \<le> valf d" "valf d \<le> 0" by (simp_all add: c32)
    have "valf e = rval binary32 (valf P * valf d)" using d by (simp add: e_def valf_fmul bvals)
    moreover have "valf P * valf d \<le> 0" using d bvals(6) by (simp add: mult_nonneg_nonpos)
    moreover have "valf P * (- valf d) \<le> 1 * (- valf d)"
      using d bvals(7) by (intro mult_right_mono) simp_all
    then have "- valf s \<le> valf P * valf d" using d(2) by simp
    ultimately have e: "fin32 e" "- valf s \<le> valf e" "valf e \<le> 0"
      using rval32_range [of e "valf P * valf d" "fneg s" 0] ns by (simp_all add: c32)
    have "valf (fadd s e) = rval binary32 (valf s + valf e)" using s e by (simp add: valf_fadd)
    from rval32_range [OF this, of 0 s] s e
    have "fin32 (fadd s e)" "0 \<le> valf (fadd s e)" "valf (fadd s e) \<le> valf s"
      by (simp_all add: c32)
    with s(2) show ?thesis unfolding c by simp
  next
    case False
    then have neg: "valf s < 0" by simp
    with s(2) have "(- valf s) * (- valf s) \<le> (- valf s) * 1" by (intro mult_left_mono) simp_all
    with neg have "valf s \<le> valf s * \<bar>valf s\<bar>" "valf s * \<bar>valf s\<bar> \<le> 0"
      by (simp_all add: mult_nonpos_nonneg)
    with rval32_range [OF vq, of s 0] s
    have q: "fin32 q" "valf s \<le> valf q" "valf q \<le> 0" by (simp_all add: c32)
    have "valf d = rval binary32 (valf q - valf s)" using q s by (simp add: d_def valf_fsub)
    from rval32_range [OF this, of 0 "fneg s"] ns q
    have d: "fin32 d" "0 \<le> valf d" "valf d \<le> - valf s" by (simp_all add: c32)
    have "valf e = rval binary32 (valf P * valf d)" using d by (simp add: e_def valf_fmul bvals)
    moreover have "0 \<le> valf P * valf d" using d bvals(6) by simp
    moreover have "valf P * valf d \<le> 1 * valf d"
      using d bvals(7) by (intro mult_right_mono) simp_all
    then have "valf P * valf d \<le> - valf s" using d(3) by simp
    ultimately have e: "fin32 e" "0 \<le> valf e" "valf e \<le> - valf s"
      using rval32_range [of e "valf P * valf d" 0 "fneg s"] ns by (simp_all add: c32)
    have "valf (fadd s e) = rval binary32 (valf s + valf e)" using s e by (simp add: valf_fadd)
    from rval32_range [OF this, of s 0] s e
    have "fin32 (fadd s e)" "valf s \<le> valf (fadd s e)" "valf (fadd s e) \<le> 0"
      by (simp_all add: c32)
    with s(2) show ?thesis unfolding c by simp
  qed
qed

lemma near_one:
  assumes "\<not> nan32 s" "1 < valf s" "valf s \<le> 8388609 / 8388608"
  shows "s = 0x3F800001"
proof -
  define k where "k = fp_mag (unpack s)"
  have m: "mval binary32 1065353216 = 1" "mval binary32 1065353217 = 8388609 / 8388608"
    by (simp_all add: val_ev)
  from assms(2) have pos: "\<not> fp_neg (unpack s)" "valf s = mval binary32 k"
    using mval_nonneg [of binary32 k] by (simp_all add: valf_def fval_def k_def split: if_splits)
  from assms(2,3) have "mval binary32 1065353216 < mval binary32 k"
    "mval binary32 k \<le> mval binary32 1065353217"
    by (simp_all only: m pos(2) [symmetric])
  then have "1065353216 < k" "k \<le> 1065353217" by (simp_all only: mval_less_iff mval_le_iff)
  then have "k = 1065353217" by linarith
  with pos(1) have "unpack s = Fp False 1065353217"
    by (cases "unpack s") (auto simp: k_def)
  moreover have "unpack 0x3F800001 = Fp False 1065353217" by (simp add: unpack_def)
  ultimately have "unpack s = unpack 0x3F800001" by simp
  then show ?thesis by (rule unpack_inj)
qed

lemma correction_bound:
  assumes s: "fin32 s" "\<bar>valf s\<bar> \<le> 8388609 / 8388608"
  shows "fin32 (spec_correction s) \<and> \<bar>valf (spec_correction s)\<bar> \<le> 8388609 / 8388608"
proof -
  have ev: "spec_correction 0x3F800001 = 0x3F800001" "spec_correction 0xBF800001 = 0xBF800001"
    by (simp_all add: spec_correction_def spec_consts cbits rnd_ev fp_ev fl_ev)
  have vals: "fin32 0x3F800001 \<and> \<bar>valf 0x3F800001\<bar> \<le> 8388609 / 8388608"
    "fin32 0xBF800001 \<and> \<bar>valf 0xBF800001\<bar> \<le> 8388609 / 8388608"
    by (simp_all add: val_ev)
  have fn: "fneg 0x3F800001 = 0xBF800001" by (simp add: fl_ev fp_ev)
  consider "\<bar>valf s\<bar> \<le> 1" | "1 < valf s" | "valf s < - 1" by linarith
  then show ?thesis
  proof cases
    case 1
    with correction_range [OF s(1)] show ?thesis by simp
  next
    case 2
    with s near_one [of s] have "s = 0x3F800001" by (simp add: fin32_not_nan)
    then show ?thesis using ev vals by simp
  next
    case 3
    with s near_one [of "fneg s"] have "fneg s = 0x3F800001" by (simp add: fin32_not_nan)
    moreover have "s = fneg (fneg s)" by simp
    ultimately have "s = fneg 0x3F800001" by metis
    then have "s = 0xBF800001" by (simp only: fn)
    then show ?thesis using ev vals by simp
  qed
qed

lemma sine_bound_reduced:
  assumes "fle (fneg pi_f) t" "fle t pi_f"
  shows "fin32 (spec_sin t) \<and> \<bar>valf (spec_sin t)\<bar> \<le> 8388609 / 8388608"
  using parabola_range [OF assms] unfolding spec_sin_def by (intro correction_bound) simp_all

section \<open>What the range-reduction loops return\<close>

lemma inf_absorbs:
  assumes "\<not> nan32 a" "\<not> fin32 a" "fin32 b"
  shows "fadd a b = a" "fsub a b = a"
proof -
  from assms have i: "is_inf binary32 (unpack a)" "\<not> is_nan binary32 (unpack a)"
    "\<not> is_nan binary32 (unpack b)" "\<not> is_inf binary32 (unpack b)"
    by (auto simp: nan32_def fin32_def is_nan_def is_fin_def is_inf_def)
  then have "fp_add binary32 (unpack a) (unpack b) = unpack a"
    "fp_sub binary32 (unpack a) (unpack b) = unpack a"
    by (simp_all add: fp_add_def fp_sub_def fp_uminus_def is_nan_def is_inf_def)
  then show "fadd a b = a" "fsub a b = a" by (simp_all add: fadd_def fsub_def pack_unpack)
qed

lemma not_nan_step:
  assumes "\<not> nan32 a" "fin32 b"
  shows "\<not> nan32 (fadd a b)" "\<not> nan32 (fsub a b)"
  using assms inf_absorbs [of a b] not_nan_fadd [of a b] not_nan_fsub [of a b]
  by (cases "fin32 a"; simp)+

lemma wrap_below_post:
  assumes "wrap_below theta = Some t" "\<not> nan32 theta"
  shows "\<not> nan32 t \<and> - valf pi_f \<le> valf t"
proof -
  have "\<not> nan32 theta \<longrightarrow> \<not> nan32 t \<and> - valf pi_f \<le> valf t"
  proof (rule wrap_below.raw_induct
      [where P = "\<lambda>x y. \<not> nan32 x \<longrightarrow> \<not> nan32 y \<and> - valf pi_f \<le> valf y", OF _ assms(1)])
    fix wb x y
    assume ih: "\<And>x y. wb x = Some y \<Longrightarrow> \<not> nan32 x \<longrightarrow> \<not> nan32 y \<and> - valf pi_f \<le> valf y"
      and st: "(if flt x (fneg pi_f) then wb (fadd x two_pi) else Some x) = Some y"
    show "\<not> nan32 x \<longrightarrow> \<not> nan32 y \<and> - valf pi_f \<le> valf y"
    proof
      assume nn: "\<not> nan32 x"
      show "\<not> nan32 y \<and> - valf pi_f \<le> valf y"
      proof (cases "flt x (fneg pi_f)")
        case True
        with st have "wb (fadd x two_pi) = Some y" by simp
        from ih [OF this] not_nan_step(1) [OF nn cvals(5)] show ?thesis by simp
      next
        case False
        with st nn show ?thesis by (auto simp: flt_iff fin32_not_nan cvals)
      qed
    qed
  qed
  with assms(2) show ?thesis by simp
qed

lemma wrap_above_post:
  assumes "wrap_above t = Some z" "\<not> nan32 t" "- valf pi_f \<le> valf t"
  shows "\<not> nan32 z \<and> - valf pi_f \<le> valf z \<and> valf z \<le> valf pi_f"
proof -
  have "\<not> nan32 t \<and> - valf pi_f \<le> valf t \<longrightarrow>
      \<not> nan32 z \<and> - valf pi_f \<le> valf z \<and> valf z \<le> valf pi_f"
  proof (rule wrap_above.raw_induct
      [where P = "\<lambda>x y. \<not> nan32 x \<and> - valf pi_f \<le> valf x \<longrightarrow>
          \<not> nan32 y \<and> - valf pi_f \<le> valf y \<and> valf y \<le> valf pi_f", OF _ assms(1)])
    fix wa x y
    assume ih: "\<And>x y. wa x = Some y \<Longrightarrow> \<not> nan32 x \<and> - valf pi_f \<le> valf x \<longrightarrow>
          \<not> nan32 y \<and> - valf pi_f \<le> valf y \<and> valf y \<le> valf pi_f"
      and st: "(if flt pi_f x then wa (fsub x two_pi) else Some x) = Some y"
    show "\<not> nan32 x \<and> - valf pi_f \<le> valf x \<longrightarrow>
          \<not> nan32 y \<and> - valf pi_f \<le> valf y \<and> valf y \<le> valf pi_f"
    proof
      assume a: "\<not> nan32 x \<and> - valf pi_f \<le> valf x"
      show "\<not> nan32 y \<and> - valf pi_f \<le> valf y \<and> valf y \<le> valf pi_f"
      proof (cases "flt pi_f x")
        case True
        with st have w: "wa (fsub x two_pi) = Some y" by simp
        from a have n: "\<not> nan32 (fsub x two_pi)" by (simp add: not_nan_step(2) cvals)
        have "- valf pi_f \<le> valf (fsub x two_pi)"
        proof (cases "fin32 x")
          case True
          from \<open>flt pi_f x\<close> have "valf (fneg pi_f) \<le> valf x - valf two_pi"
            by (simp add: flt_iff cvals)
          then have "valf (fneg pi_f) \<le> rval binary32 (valf x - valf two_pi)"
            by (rule rval32_ge) (simp add: fin32_not_nan cvals)
          with True show ?thesis by (simp add: valf_fsub cvals)
        next
          case False
          with a have "fsub x two_pi = x" by (simp add: inf_absorbs(2) cvals)
          with a show ?thesis by simp
        qed
        with ih [OF w] n show ?thesis by simp
      next
        case False
        with st a show ?thesis by (auto simp: flt_iff fin32_not_nan cvals)
      qed
    qed
  qed
  with assms(2,3) show ?thesis by simp
qed

lemma loops_reduce:
  assumes "wrap_below theta = Some t" "wrap_above t = Some z" "\<not> nan32 theta"
  shows "fle (fneg pi_f) z" "fle z pi_f"
proof -
  from wrap_below_post [OF assms(1,3)] wrap_above_post [OF assms(2)]
  have "\<not> nan32 z \<and> - valf pi_f \<le> valf z \<and> valf z \<le> valf pi_f" by simp
  then show "fle (fneg pi_f) z" "fle z pi_f" by (simp_all add: fle_iff fin32_not_nan cvals)
qed

lemma sin_fm_result:
  assumes "sin_fm theta = Some r" "\<not> nan32 theta"
  shows "\<exists>t. fle (fneg pi_f) t \<and> fle t pi_f \<and> r = spec_sin t"
proof -
  from assms(1) obtain t z where w: "wrap_below theta = Some t" "wrap_above t = Some z"
    by (auto simp: sin_fm_def bind_eq_Some_conv)
  note red = loops_reduce [OF w assms(2)]
  have "sin_fm theta = sin_fm z" by (simp add: sin_fm_def w wrap_id [OF red])
  with assms(1) sin_fm_reduced [OF red] have "r = spec_sin z" by simp
  with red show ?thesis by blast
qed

lemma cos_fm_result:
  assumes "cos_fm theta = Some r" "\<not> nan32 theta"
  shows "\<exists>t. fle (fneg pi_f) t \<and> fle t pi_f \<and> r = spec_sin t"
proof -
  from assms(1) obtain t z where w: "wrap_below theta = Some t" "wrap_above t = Some z"
    by (auto simp: cos_fm_def bind_eq_Some_conv)
  note red = loops_reduce [OF w assms(2)]
  have "cos_fm theta = cos_fm z" by (simp add: cos_fm_def w wrap_id [OF red])
  with assms(1) cos_fm_reduced [OF red] have "r = spec_sin (spec_rewrap (fadd z half_pi))"
    by (simp add: spec_cos_def)
  with phase_shift_range [OF red] show ?thesis by blast
qed

lemma wrap_steps:
  "flt t (fneg pi_f) \<Longrightarrow> wrap_below t = wrap_below (fadd t two_pi)"
  "\<not> flt t (fneg pi_f) \<Longrightarrow> wrap_below t = Some t"
  "flt pi_f t \<Longrightarrow> wrap_above t = wrap_above (fsub t two_pi)"
  "\<not> flt pi_f t \<Longrightarrow> wrap_above t = Some t"
  by (subst wrap_below.simps, simp, subst wrap_below.simps, simp,
      subst wrap_above.simps, simp, subst wrap_above.simps, simp)

lemma sin_cos_loops:
  assumes "wrap_below theta = Some t" "wrap_above t = Some z"
    and red: "fle (fneg pi_f) z" "fle z pi_f"
  shows "sin_fm theta = Some (spec_sin z)" "cos_fm theta = Some (spec_cos z)"
proof -
  have "sin_fm theta = sin_fm z" by (simp add: sin_fm_def assms(1,2) wrap_id [OF red])
  then show "sin_fm theta = Some (spec_sin z)" by (simp add: sin_fm_reduced [OF red])
  have "cos_fm theta = cos_fm z" by (simp add: cos_fm_def assms(1,2) wrap_id [OF red])
  then show "cos_fm theta = Some (spec_cos z)" by (simp add: cos_fm_reduced [OF red])
qed

section \<open>Where the range-reduction loops stop moving\<close>

lemma stuck_above:
  assumes "\<not> nan32 a" "134217728 < valf a"
  shows "fsub a two_pi = a"
proof (cases "fin32 a")
  case False
  with assms(1) show ?thesis by (simp add: inf_absorbs(2) cvals)
next
  case True
  define k where "k = fp_mag (unpack a)"
  from assms(2) have pos: "0 < valf a" by simp
  from pos_float [OF pos] have v: "valf a = mval binary32 k" by (simp add: k_def)
  from pos have s: "\<not> fp_neg (unpack a)"
    using mval_nonneg [of binary32 k] by (simp add: valf_def fval_def k_def split: if_splits)
  from assms(2) have k: "1291845632 < k"
    unfolding v mval32_2p27 [symmetric] by (simp only: mval_less_iff)
  from True have i: "k < inf_mag binary32" by (simp add: fin32_def is_fin_def k_def)
  have u: "unpack a = Fp False k" using s by (cases "unpack a") (simp add: k_def)
  have f: "is_fin binary32 (Fp False k)" "is_fin binary32 (fp_uminus (unpack two_pi))"
    using i cvals(5) by (simp_all add: fin32_def is_fin_def fp_uminus_def)
  have "fval binary32 (fp_uminus (unpack two_pi)) = - valf two_pi"
    by (simp add: valf_def fval_def fp_uminus_def)
  then have t: "fval binary32 (fp_uminus (unpack two_pi)) = - (13176795 / 2097152)"
    by (simp only: cvals)
  have va: "fval binary32 (Fp False k) = mval binary32 k" by (simp add: fval_def)
  define x where "x = mval binary32 k - 13176795 / 2097152"
  have g: "0 < x" using assms(2) by (simp add: v x_def)
  have "fval binary32 (Fp False k) + fval binary32 (fp_uminus (unpack two_pi)) = x"
    by (simp add: va t x_def)
  with g fp_add_fin [OF f]
  have "fp_add binary32 (Fp False k) (fp_uminus (unpack two_pi)) = Fp False (rnd binary32 x)"
    by simp
  then have "unpack (fsub a two_pi)
      = Fp False (rnd binary32 (mval binary32 k - 13176795 / 2097152))"
    by (simp add: unpack_fsub fp_sub_def u x_def)
  also have "\<dots> = unpack a" by (simp add: stay_real [OF k i] u)
  finally show ?thesis by (rule unpack_inj)
qed

lemma stuck_below:
  assumes "\<not> nan32 a" "valf a < - 134217728"
  shows "fadd a two_pi = a"
proof (cases "fin32 a")
  case False
  with assms(1) show ?thesis by (simp add: inf_absorbs(1) cvals)
next
  case True
  define k where "k = fp_mag (unpack a)"
  have s: "fp_neg (unpack a)"
    using assms(2) mval_nonneg [of binary32 k]
    by (simp add: valf_def fval_def k_def split: if_splits)
  then have v: "valf a = - mval binary32 k" by (simp add: valf_def fval_def k_def)
  from assms(2) have "mval binary32 1291845632 < mval binary32 k"
    by (simp add: v mval32_2p27)
  then have k: "1291845632 < k" by (simp only: mval_less_iff)
  from True have i: "k < inf_mag binary32" by (simp add: fin32_def is_fin_def k_def)
  have u: "unpack a = Fp True k" using s by (cases "unpack a") (simp add: k_def)
  have f: "is_fin binary32 (Fp True k)" "is_fin binary32 (unpack two_pi)"
    using i cvals(5) by (simp_all add: fin32_def is_fin_def)
  have t: "fval binary32 (unpack two_pi) = 13176795 / 2097152"
    using cvals(2) by (simp add: valf_def)
  have va: "fval binary32 (Fp True k) = - mval binary32 k" by (simp add: fval_def)
  define x where "x = mval binary32 k - 13176795 / 2097152"
  have g: "0 < x" using assms(2) by (simp add: v x_def)
  have "fval binary32 (Fp True k) + fval binary32 (unpack two_pi) = - x"
    by (simp add: va t x_def)
  with g fp_add_fin [OF f]
  have "fp_add binary32 (Fp True k) (unpack two_pi) = Fp True (rnd binary32 x)"
    by simp
  then have "unpack (fadd a two_pi)
      = Fp True (rnd binary32 (mval binary32 k - 13176795 / 2097152))"
    by (simp add: unpack_fadd u x_def)
  also have "\<dots> = unpack a" by (simp add: stay_real [OF k i] u)
  finally show ?thesis by (rule unpack_inj)
qed

lemma wrap_below_stuck:
  assumes "flt a (fneg pi_f)" "fadd a two_pi = a"
  shows "wrap_below a = None"
proof (rule ccontr)
  assume "wrap_below a \<noteq> None"
  then obtain y where y: "wrap_below a = Some y" by auto
  have "a \<noteq> a"
  proof (rule wrap_below.raw_induct [where P = "\<lambda>t z. t \<noteq> a", OF _ y])
    fix wb t z
    assume ih: "\<And>x y. wb x = Some y \<Longrightarrow> x \<noteq> a"
      and st: "(if flt t (fneg pi_f) then wb (fadd t two_pi) else Some t) = Some z"
    show "t \<noteq> a"
    proof
      assume "t = a"
      with st assms have "wb a = Some z" by simp
      from ih [OF this] show False by simp
    qed
  qed
  then show False by simp
qed

lemma loops_diverge:
  assumes "\<not> nan32 theta" "134217728 < \<bar>valf theta\<bar>"
  shows "sin_fm theta = None" "cos_fm theta = None"
proof -
  have "wrap_below theta \<bind> wrap_above = None"
  proof (cases "0 < valf theta")
    case True
    with assms have "flt pi_f theta" "\<not> flt theta (fneg pi_f)"
      by (simp_all add: flt_iff cvals fin32_not_nan)
    moreover from True assms have "fsub theta two_pi = theta" by (intro stuck_above) simp_all
    ultimately show ?thesis by (simp add: wrap_steps(2) wrap_above_stuck)
  next
    case False
    with assms have "flt theta (fneg pi_f)" by (simp add: flt_iff cvals fin32_not_nan)
    moreover from False assms have "fadd theta two_pi = theta" by (intro stuck_below) simp_all
    ultimately show ?thesis by (simp add: wrap_below_stuck)
  qed
  then have "wrap_below theta = None \<or> (\<exists>t. wrap_below theta = Some t \<and> wrap_above t = None)"
    by (cases "wrap_below theta") simp_all
  then show "sin_fm theta = None" "cos_fm theta = None"
    by (auto simp: sin_fm_def cos_fm_def)
qed

lemma loops_return:
  assumes "fin32 theta" "\<bar>valf theta\<bar> \<le> 134217728"
  shows "\<exists>r. sin_fm theta = Some r" "\<exists>r. cos_fm theta = Some r"
proof -
  from reduce_returns [OF assms]
  obtain y where "wrap_below theta \<bind> wrap_above = Some y" by auto
  then obtain z where "wrap_below theta = Some z" "wrap_above z = Some y"
    by (auto simp: bind_eq_Some_conv)
  then show "\<exists>r. sin_fm theta = Some r" "\<exists>r. cos_fm theta = Some r"
    by (simp_all add: sin_fm_def cos_fm_def Let_def)
qed

section \<open>Rounding to an integer\<close>


















section \<open>Claims\<close>

text \<open>
  Claim C6. The special-case ladder of \<open>pow\<close>: an exponent of 0 gives 1 for every base
  (zero, infinities and NaN included), an exponent of 1 gives the base back unchanged,
  and \<open>pow(2, 3)\<close> is exactly 8, from the branch for the exponent 3.
\<close>

theorem pow_identities:
  "pow b (flit 0 1) = Some (flit 1 1) \<and> pow b (flit 1 1) = Some b \<and>
   pow (flit 2 1) (flit 3 1) = Some (flit 8 1)"
proof (intro conjI)
  have e0: "feq (flit 0 1) (flit 0 1)" by (simp add: rnd_ev fp_ev fl_ev)
  have e1: "\<not> feq (flit 1 1) (flit 0 1)" "feq (flit 1 1) (flit 1 1)"
    by (simp_all add: rnd_ev fp_ev fl_ev)
  show "pow b (flit 0 1) = Some (flit 1 1)" by (simp add: pow_def e0 del: One_nat_def)
  show "pow b (flit 1 1) = Some b" by (simp add: pow_def e1 del: One_nat_def)
  show "pow (flit 2 1) (flit 3 1) = Some (flit 8 1)"
    by (simp cong: let_weak_cong bind_weak_cong add: pow_def rnd_ev fp_ev fl_ev)
qed




text \<open>
  Claim C9. \<open>fmod\<close> returns 0 for a divisor that is zero, whatever the dividend; it
  returns the dividend unchanged when the dividend is smaller in magnitude than the
  divisor; and \<open>fmod(7, 3) = 1\<close>, \<open>fmod(-7, 3) = -1\<close> exactly, on the fast path: neither
  operand nor the quotient exceeds the threshold 25 that delegates to \<open>std::fmod\<close>.
\<close>

theorem fmod_cases:
  "(feq d (flit 0 1) \<longrightarrow> fmod x d = Some (flit 0 1)) \<and>
   (flt (fabs x) (fabs d) \<longrightarrow> fmod x d = Some x) \<and>
   fmod (flit 7 1) (flit 3 1) = Some (flit 1 1) \<and>
   fmod (fneg (flit 7 1)) (flit 3 1) = Some (fneg (flit 1 1)) \<and>
   \<not> flt (flit 25 1) (fabs (flit 7 1)) \<and> \<not> flt (flit 25 1) (fabs (flit 3 1)) \<and>
   \<not> flt (flit 25 1) (fabs (fdiv (flit 7 1) (flit 3 1)))"
proof (intro conjI impI)
  show "fmod x d = Some (flit 0 1)" if "feq d (flit 0 1)"
    using that by (simp add: fmod_def)
  show "fmod x d = Some x" if "flt (fabs x) (fabs d)"
    using that flt_fabs_not_zero [OF that] by (simp add: fmod_def flit_0 del: One_nat_def)
  show "fmod (flit 7 1) (flit 3 1) = Some (flit 1 1)"
    by (simp cong: let_weak_cong bind_weak_cong add: fmod_def rnd_ev fp_ev fl_ev)
  show "fmod (fneg (flit 7 1)) (flit 3 1) = Some (fneg (flit 1 1))"
    by (simp cong: let_weak_cong bind_weak_cong add: fmod_def rnd_ev fp_ev fl_ev)
  show "\<not> flt (flit 25 1) (fabs (flit 7 1))" by (simp add: rnd_ev fp_ev fl_ev)
  show "\<not> flt (flit 25 1) (fabs (flit 3 1))" by (simp add: rnd_ev fp_ev fl_ev)
  show "\<not> flt (flit 25 1) (fabs (fdiv (flit 7 1) (flit 3 1)))" by (simp add: rnd_ev fp_ev fl_ev)
qed

theorem fmod_cases_witness:
  "feq (fneg (flit 0 1)) (flit 0 1) \<and> fmod (flit 7 1) (fneg (flit 0 1)) = Some (flit 0 1) \<and>
   flt (fabs (flit 1 1)) (fabs (fneg (flit 3 1))) \<and>
   fmod (flit 1 1) (fneg (flit 3 1)) = Some (flit 1 1)"
proof -
  have a: "feq (fneg (flit 0 1)) (flit 0 1)" by (simp add: rnd_ev fp_ev fl_ev)
  have b: "flt (fabs (flit 1 1)) (fabs (fneg (flit 3 1)))" by (simp add: rnd_ev fp_ev fl_ev)
  from a b fmod_cases [of "fneg (flit 0 1)" "flit 7 1"] fmod_cases [of "fneg (flit 3 1)" "flit 1 1"]
  show ?thesis by blast
qed



text \<open>
  Claim C8, as amended. \<open>sinh\<close> is odd and \<open>cosh\<close> is even on every input (where the
  cast inside \<open>exp\<close> is undefined, both sides are); \<open>asinh\<close> is odd on every input
  that is not a NaN; \<open>atanh\<close> is odd on its Taylor branch \<open>|x| < 0.5\<close>, and for
  \<open>|x| \<ge> 1\<close> the two sides are the zeros of opposite sign, equal as \<open>float\<close>s.
  Between 0.5 and 1, \<open>atanh\<close> computes \<open>0.5 * log((1 + x) / (1 - x))\<close> on \<open>x\<close> itself,
  not on \<open>|x|\<close>, and the claim as stated fails: see the counterexample.
\<close>

theorem hyperbolic_symmetries:
  "sinh_fm (fneg x) = map_option fneg (sinh_fm x) \<and>
   (\<not> nan32 x \<longrightarrow> asinh (fneg x) = fneg (asinh x)) \<and>
   cosh_fm (fneg x) = cosh_fm x \<and>
   (flt (fabs x) (flit 5 10) \<longrightarrow> atanh (fneg x) = fneg (atanh x)) \<and>
   (fle (flit 1 1) (fabs x) \<longrightarrow> feq (atanh (fneg x)) (fneg (atanh x)))"
  by (simp add: sinh_fm_odd asinh_odd cosh_fm_even atanh_odd_small atanh_sentinel_sym(3))

theorem hyperbolic_symmetries_witness:
  "\<not> nan32 (flit 25 100) \<and> asinh (fneg (flit 25 100)) = fneg (asinh (flit 25 100)) \<and>
   flt (fabs (flit 25 100)) (flit 5 10) \<and>
   atanh (fneg (flit 25 100)) = fneg (atanh (flit 25 100)) \<and>
   fle (flit 1 1) (fabs (flit 2 1)) \<and> feq (atanh (fneg (flit 2 1))) (fneg (atanh (flit 2 1)))"
proof -
  have a: "\<not> nan32 (flit 25 100)" by (simp add: rnd_ev fp_ev fl_ev nan32_def)
  have b: "flt (fabs (flit 25 100)) (flit 5 10)" by (simp add: rnd_ev fp_ev fl_ev)
  have c: "fle (flit 1 1) (fabs (flit 2 1))" by (simp add: rnd_ev fp_ev fl_ev)
  from a b c hyperbolic_symmetries [of "flit 25 100"] hyperbolic_symmetries [of "flit 2 1"]
  show ?thesis by blast
qed

theorem atanh_not_odd:
  "flt (fabs (flit 625 1000)) (flit 1 1) \<and>
   atanh (fneg (flit 625 1000)) = 0xBF3BB0F2 \<and>
   fneg (atanh (flit 625 1000)) = 0xBF3BB0EF \<and>
   atanh (fneg (flit 625 1000)) \<noteq> fneg (atanh (flit 625 1000))"
proof -
  have 1: "atanh (fneg (flit 625 1000)) = 0xBF3BB0F2"
    by (simp cong: let_weak_cong add: atanh_def log_fm_def rnd_ev fp_ev fl_ev)
  have 2: "fneg (atanh (flit 625 1000)) = 0xBF3BB0EF"
    by (simp cong: let_weak_cong add: atanh_def log_fm_def rnd_ev fp_ev fl_ev)
  have 3: "flt (fabs (flit 625 1000)) (flit 1 1)" by (simp add: rnd_ev fp_ev fl_ev)
  from 1 2 3 show ?thesis by simp
qed

text \<open>
  Claim C3, as amended. For every \<open>theta\<close> that is not a NaN, \<open>sin\<close> and \<open>cos\<close> return
  if and only if \<open>|theta| \<le> 2 ^ 27\<close>. Up to that bound each pass of a range-reduction loop
  replaces \<open>theta\<close> by a \<open>float\<close> strictly nearer to the target interval, so both loops
  end. For every larger \<open>theta\<close>, from \<open>2 ^ 27 + 16\<close> on and for the infinities,
  subtracting \<open>two_pi\<close> (adding it, for a negative \<open>theta\<close>) rounds back to \<open>theta\<close>
  itself and the loop never ends. The claim as stated, for every finite \<open>theta\<close>, fails:
  see the counterexample.
\<close>

theorem range_reduction_terminates:
  "\<not> nan32 theta \<longrightarrow>
     ((\<exists>r. sin_fm theta = Some r) \<longleftrightarrow> fle (fabs theta) (flit 134217728 1)) \<and>
     ((\<exists>r. cos_fm theta = Some r) \<longleftrightarrow> fle (fabs theta) (flit 134217728 1))"
proof
  assume n: "\<not> nan32 theta"
  have x: "flit 134217728 1 = 0x4D000000" by (simp add: rnd_ev fp_ev fl_ev)
  have c: "valf 0x4D000000 = 134217728" "\<not> nan32 0x4D000000" by (simp_all add: val_ev)
  have "((\<exists>r. sin_fm theta = Some r) \<longleftrightarrow> fle (fabs theta) 0x4D000000) \<and>
     ((\<exists>r. cos_fm theta = Some r) \<longleftrightarrow> fle (fabs theta) 0x4D000000)"
  proof (cases "fle (fabs theta) 0x4D000000")
    case True
    then have b: "\<bar>valf theta\<bar> \<le> 134217728" by (simp add: fle_iff c)
    then have "fin32 theta" by (intro fin32_bound) simp
    from loops_return [OF this b] True show ?thesis by simp
  next
    case False
    with n have "134217728 < \<bar>valf theta\<bar>" by (simp add: fle_iff c)
    from loops_diverge [OF n this] False show ?thesis by simp
  qed
  then show "((\<exists>r. sin_fm theta = Some r) \<longleftrightarrow> fle (fabs theta) (flit 134217728 1)) \<and>
     ((\<exists>r. cos_fm theta = Some r) \<longleftrightarrow> fle (fabs theta) (flit 134217728 1))"
    by (simp only: x)
qed

theorem range_reduction_terminates_witness:
  "\<not> nan32 (flit 20 1) \<and> fle (fabs (flit 20 1)) (flit 134217728 1) \<and>
   (\<exists>r. sin_fm (flit 20 1) = Some r) \<and> (\<exists>r. cos_fm (flit 20 1) = Some r) \<and>
   \<not> nan32 (flit 134217728 1) \<and>
   (\<exists>r. sin_fm (flit 134217728 1) = Some r) \<and> (\<exists>r. cos_fm (flit 134217728 1) = Some r) \<and>
   \<not> nan32 0x4D000001 \<and> \<not> fle (fabs 0x4D000001) (flit 134217728 1) \<and>
   sin_fm 0x4D000001 = None \<and> cos_fm 0x4D000001 = None"
proof -
  have n: "\<not> nan32 (flit 20 1)" "\<not> nan32 (flit 134217728 1)" "\<not> nan32 0x4D000001"
    by (simp_all add: rnd_ev fp_ev fl_ev nan32_def)
  have h: "fle (fabs (flit 20 1)) (flit 134217728 1)"
    "fle (fabs (flit 134217728 1)) (flit 134217728 1)"
    "\<not> fle (fabs 0x4D000001) (flit 134217728 1)"
    by (simp_all add: rnd_ev fp_ev fl_ev)
  from n h range_reduction_terminates [of "flit 20 1"]
    range_reduction_terminates [of "flit 134217728 1"]
    range_reduction_terminates [of "0x4D000001"]
  show ?thesis by (simp add: not_Some_eq [symmetric] del: not_Some_eq not_None_eq)
qed

theorem range_reduction_diverges:
  "fin32 (flit 268435456 1) \<and> sin_fm (flit 268435456 1) = None \<and>
   cos_fm (flit 268435456 1) = None"
proof -
  have x: "flit 268435456 1 = 0x4D800000" by (simp add: rnd_ev fp_ev fl_ev)
  have f: "fin32 0x4D800000" by (simp add: val_ev)
  have "flt pi_f 0x4D800000" "fsub 0x4D800000 two_pi = 0x4D800000"
    by (simp_all add: cbits rnd_ev fp_ev fl_ev)
  then have wa: "wrap_above 0x4D800000 = None" by (rule wrap_above_stuck)
  have "\<not> flt 0x4D800000 (fneg pi_f)" by (simp add: cbits rnd_ev fp_ev fl_ev)
  then have wb: "wrap_below 0x4D800000 = Some 0x4D800000" by (subst wrap_below.simps) simp
  from f wa wb show ?thesis unfolding x by (simp add: sin_fm_def cos_fm_def)
qed

text \<open>
  Claim C1. For every \<open>theta\<close> already in \<open>[-pi, pi]\<close>, \<open>sin\<close> returns the parabola base
  term \<open>theta * B - sign(theta) * C * theta\<^sup>2\<close> followed by exactly one correction pass
  \<open>y + P * (y * |y| - y)\<close>, and \<open>cos\<close> returns the same pipeline applied to
  \<open>theta + pi / 2\<close> wrapped back once, which lies in \<open>[-pi, pi]\<close> again. The constants
  are \<open>B = 4 / pi\<close>, \<open>C = 4 / pi\<^sup>2\<close> and \<open>P = 0.225\<close>, which is not \<open>0.218\<close>.
\<close>

theorem sine_pipeline:
  "fle (fneg pi_f) theta \<and> fle theta pi_f \<longrightarrow>
     sin_fm theta = Some (spec_sin theta) \<and>
     cos_fm theta = Some (spec_cos theta) \<and>
     fle (fneg pi_f) (spec_rewrap (fadd theta half_pi)) \<and>
     fle (spec_rewrap (fadd theta half_pi)) pi_f \<and>
     B = spec_B \<and> C = spec_C \<and> P = spec_P \<and> P \<noteq> flit 218 1000"
proof
  assume a: "fle (fneg pi_f) theta \<and> fle theta pi_f"
  then have lo: "fle (fneg pi_f) theta" and hi: "fle theta pi_f" by simp_all
  have "sin_fm theta = Some (spec_sin theta)" using lo hi by (rule sin_fm_reduced)
  moreover have "cos_fm theta = Some (spec_cos theta)" using lo hi by (rule cos_fm_reduced)
  moreover have "fle (fneg pi_f) (spec_rewrap (fadd theta half_pi))"
    "fle (spec_rewrap (fadd theta half_pi)) pi_f"
    using lo hi by (rule phase_shift_range)+
  moreover have "B = spec_B" "C = spec_C" "P = spec_P" by (simp_all add: spec_consts)
  moreover have "P \<noteq> flit 218 1000" by (simp add: cbits rnd_ev fp_ev fl_ev)
  ultimately show "sin_fm theta = Some (spec_sin theta) \<and>
     cos_fm theta = Some (spec_cos theta) \<and>
     fle (fneg pi_f) (spec_rewrap (fadd theta half_pi)) \<and>
     fle (spec_rewrap (fadd theta half_pi)) pi_f \<and>
     B = spec_B \<and> C = spec_C \<and> P = spec_P \<and> P \<noteq> flit 218 1000"
    by simp
qed

theorem sine_pipeline_witness:
  "fle (fneg pi_f) (flit 1 1) \<and> fle (flit 1 1) pi_f \<and>
   sin_fm (flit 1 1) = Some (spec_sin (flit 1 1)) \<and>
   cos_fm (flit 1 1) = Some (spec_cos (flit 1 1)) \<and>
   flt pi_f (fadd (flit 3 1) half_pi) \<and>
   cos_fm (flit 3 1) = Some (spec_sin (fsub (fadd (flit 3 1) half_pi) two_pi))"
proof -
  have 1: "fle (fneg pi_f) (flit 1 1)" "fle (flit 1 1) pi_f"
    by (simp_all add: cbits rnd_ev fp_ev fl_ev)
  have 3: "fle (fneg pi_f) (flit 3 1)" "fle (flit 3 1) pi_f"
    "flt pi_f (fadd (flit 3 1) half_pi)"
    by (simp_all add: cbits rnd_ev fp_ev fl_ev)
  from 1 3 sine_pipeline [of "flit 1 1"] sine_pipeline [of "flit 3 1"] show ?thesis
    by (simp add: spec_cos_def spec_rewrap_def)
qed

text \<open>
  Claim C4. Inputs outside the domain give the fixed sentinel values, and a value is
  returned in each case: \<open>log x = -1e38\<close> for every \<open>x \<le> 0\<close>; \<open>atanh x = 0\<close> for every
  \<open>x\<close> with \<open>|x| \<ge> 1\<close>; \<open>pow 0 e = 1e38\<close> for every \<open>e < 0\<close>; and \<open>pow b e = 0\<close> for every
  \<open>b < 0\<close> and every exponent \<open>e\<close> that is not an integer, that is, a finite \<open>e\<close> with
  a fractional part.
\<close>

theorem domain_sentinels:
  "(fle x (flit 0 1) \<longrightarrow> log_fm x = fneg (flit (10 ^ 38) 1)) \<and>
   (fle (flit 1 1) (fabs y) \<longrightarrow> atanh y = flit 0 1) \<and>
   (feq z (flit 0 1) \<and> flt e (flit 0 1) \<longrightarrow> pow z e = Some (flit (10 ^ 38) 1)) \<and>
   (flt b (flit 0 1) \<and> fractional e' \<longrightarrow> pow b e' = Some (flit 0 1))"
proof (intro conjI impI)
  assume "fle x (flit 0 1)"
  then show "log_fm x = fneg (flit (10 ^ 38) 1)" by (simp add: log_fm_def)
next
  assume "fle (flit 1 1) (fabs y)"
  then show "atanh y = flit 0 1" by (simp add: atanh_def)
next
  assume a: "feq z (flit 0 1) \<and> flt e (flit 0 1)"
  have "valf (flit 1 1) = 1" by (simp add: lit_bits val_ev)
  with a have "\<not> feq e (flit 0 1)" "\<not> feq e (flit 1 1)" "\<not> flt (flit 0 1) e"
    by (simp_all add: feq_iff flt_iff lit_bits)
  with a show "pow z e = Some (flit (10 ^ 38) 1)" by (simp add: pow_def)
next
  assume "flt b (flit 0 1) \<and> fractional e'"
  then show "pow b e' = Some (flit 0 1)" by (simp add: pow_fractional)
qed

theorem domain_sentinels_witness:
  "fle (fneg (flit 2 1)) (flit 0 1) \<and> log_fm (fneg (flit 2 1)) = 0xFE967699 \<and>
   fle (flit 1 1) (fabs (fneg (flit 3 1))) \<and> atanh (fneg (flit 3 1)) = 0 \<and>
   feq (fneg (flit 0 1)) (flit 0 1) \<and> flt (fneg (flit 3 1)) (flit 0 1) \<and>
   pow (fneg (flit 0 1)) (fneg (flit 3 1)) = Some 0x7E967699 \<and>
   flt (fneg (flit 2 1)) (flit 0 1) \<and> fractional (flit 3 2) \<and>
   pow (fneg (flit 2 1)) (flit 3 2) = Some 0"
proof -
  have h: "fle (fneg (flit 2 1)) (flit 0 1)" "fle (flit 1 1) (fabs (fneg (flit 3 1)))"
    "feq (fneg (flit 0 1)) (flit 0 1)" "flt (fneg (flit 3 1)) (flit 0 1)"
    "flt (fneg (flit 2 1)) (flit 0 1)"
    by (simp_all add: rnd_ev fp_ev fl_ev)
  have f: "fractional (flit 3 2)"
    by (simp add: rnd_ev fp_ev fl_ev) (simp add: fractional_def val_ev)
  have v: "flit (10 ^ 38) 1 = 0x7E967699" "fneg 0x7E967699 = 0xFE967699" "flit 0 1 = 0"
    by (simp_all add: rnd_ev fp_ev fl_ev)
  from h f
    domain_sentinels [of "fneg (flit 2 1)" "fneg (flit 3 1)" "fneg (flit 0 1)" "fneg (flit 3 1)"
      "fneg (flit 2 1)" "flit 3 2"]
  show ?thesis by (simp only: v simp_thms)
qed

text \<open>
  Claim C7, as amended. For every pair of finite inputs \<open>(y, x)\<close>, \<open>atan2 y x\<close> lies in
  \<open>[-pi, pi]\<close>, where \<open>pi\<close> is the \<open>float\<close> nearest to the number. When \<open>|x|\<close> and \<open>|y|\<close>
  are both below the threshold \<open>1e-7\<close> the result is \<open>0\<close>; when only \<open>|x|\<close> is below it,
  the result is \<open>pi / 2\<close> if \<open>y \<ge> 0\<close> and \<open>- pi / 2\<close> if \<open>y < 0\<close>. The claim as stated, for
  every pair of inputs, fails: see the counterexample, where both inputs are infinite
  and the result is a NaN, which lies in no interval.
\<close>

theorem atan2_in_range:
  "(fin32 y \<and> fin32 x \<longrightarrow> fle (fneg pi_f) (atan2 y x) \<and> fle (atan2 y x) pi_f) \<and>
   (flt (fabs x) (flit 1 (10 ^ 7)) \<and> flt (fabs y) (flit 1 (10 ^ 7)) \<longrightarrow>
      atan2 y x = flit 0 1) \<and>
   (flt (fabs x) (flit 1 (10 ^ 7)) \<and> \<not> flt (fabs y) (flit 1 (10 ^ 7)) \<and> fle (flit 0 1) y \<longrightarrow>
      atan2 y x = flit 157079632679489661923 (10 ^ 20)) \<and>
   (flt (fabs x) (flit 1 (10 ^ 7)) \<and> \<not> flt (fabs y) (flit 1 (10 ^ 7)) \<and> flt y (flit 0 1) \<longrightarrow>
      atan2 y x = fneg (flit 157079632679489661923 (10 ^ 20)))"
proof (intro conjI impI)
  assume "fin32 y \<and> fin32 x"
  then have r: "\<not> nan32 (atan2 y x) \<and> - valf pi_f \<le> valf (atan2 y x) \<and>
      valf (atan2 y x) \<le> valf pi_f"
    by (simp add: atan2_range)
  then show "fle (fneg pi_f) (atan2 y x)" by (simp add: fle_iff cvals fin32_not_nan)
  from r show "fle (atan2 y x) pi_f" by (simp add: fle_iff cvals fin32_not_nan)
next
  assume "flt (fabs x) (flit 1 (10 ^ 7)) \<and> flt (fabs y) (flit 1 (10 ^ 7))"
  then show "atan2 y x = flit 0 1" by (simp add: atan2_def)
next
  have h: "fneg 0x3FC90FDB = 0xBFC90FDB" by (simp add: fl_ev fp_ev)
  {
    assume a: "flt (fabs x) (flit 1 (10 ^ 7)) \<and> \<not> flt (fabs y) (flit 1 (10 ^ 7)) \<and>
        fle (flit 0 1) y"
    then show "atan2 y x = flit 157079632679489661923 (10 ^ 20)"
      unfolding atan_special(4) atan_consts(6) lit_bits(1) by (simp add: atan2_special)
  next
    assume a: "flt (fabs x) (flit 1 (10 ^ 7)) \<and> \<not> flt (fabs y) (flit 1 (10 ^ 7)) \<and>
        flt y (flit 0 1)"
    then have "\<not> fle (flit 0 1) y" by (simp add: flt_not_fle)
    with a show "atan2 y x = fneg (flit 157079632679489661923 (10 ^ 20))"
      unfolding atan_special(4) atan_consts(6) lit_bits(1) h by (simp add: atan2_special)
  }
qed

theorem atan2_in_range_witness:
  "fin32 (flit 1 1) \<and> fin32 (fneg (flit 2 1)) \<and>
   fle (fneg pi_f) (atan2 (flit 1 1) (fneg (flit 2 1))) \<and>
   fle (atan2 (flit 1 1) (fneg (flit 2 1))) pi_f \<and>
   flt (fabs (flit 0 1)) (flit 1 (10 ^ 7)) \<and> atan2 (flit 0 1) (flit 0 1) = 0 \<and>
   \<not> flt (fabs (flit 3 1)) (flit 1 (10 ^ 7)) \<and> fle (flit 0 1) (flit 3 1) \<and>
   atan2 (flit 3 1) (flit 0 1) = 0x3FC90FDB \<and>
   \<not> flt (fabs (fneg (flit 3 1))) (flit 1 (10 ^ 7)) \<and> flt (fneg (flit 3 1)) (flit 0 1) \<and>
   atan2 (fneg (flit 3 1)) (flit 0 1) = 0xBFC90FDB"
proof -
  have f: "fin32 (flit 1 1)" "fin32 (fneg (flit 2 1))"
    by (simp_all add: rnd_ev fp_ev fl_ev) (simp_all add: val_ev)
  have h: "flt (fabs (flit 0 1)) (flit 1 (10 ^ 7))"
    "\<not> flt (fabs (flit 3 1)) (flit 1 (10 ^ 7))" "fle (flit 0 1) (flit 3 1)"
    "\<not> flt (fabs (fneg (flit 3 1))) (flit 1 (10 ^ 7))" "flt (fneg (flit 3 1)) (flit 0 1)"
    by (simp_all add: rnd_ev fp_ev fl_ev)
  have v: "flit 157079632679489661923 (10 ^ 20) = 0x3FC90FDB"
    "fneg 0x3FC90FDB = 0xBFC90FDB" "flit 0 1 = 0"
    by (simp_all add: rnd_ev fp_ev fl_ev)
  from f atan2_in_range [of "flit 1 1" "fneg (flit 2 1)"]
  have 1: "fle (fneg pi_f) (atan2 (flit 1 1) (fneg (flit 2 1)))"
    "fle (atan2 (flit 1 1) (fneg (flit 2 1))) pi_f"
    by blast+
  from h atan2_in_range [of "flit 0 1" "flit 0 1"]
  have 2: "atan2 (flit 0 1) (flit 0 1) = 0" unfolding v by blast
  from h atan2_in_range [of "flit 3 1" "flit 0 1"]
  have 3: "atan2 (flit 3 1) (flit 0 1) = 0x3FC90FDB" unfolding v by blast
  from h atan2_in_range [of "fneg (flit 3 1)" "flit 0 1"]
  have 4: "atan2 (fneg (flit 3 1)) (flit 0 1) = 0xBFC90FDB" unfolding v by blast
  from f h 1 2 3 4 show ?thesis by (intro conjI)
qed

theorem atan2_infinite_nan:
  "\<not> nan32 0x7F800000 \<and> nan32 (atan2 0x7F800000 0x7F800000) \<and>
   \<not> (fle (fneg pi_f) (atan2 0x7F800000 0x7F800000) \<and> fle (atan2 0x7F800000 0x7F800000) pi_f)"
proof -
  have "atan2 0x7F800000 0x7F800000 = 0x7FC00000"
    by (simp cong: let_weak_cong add: atan2_def rnd_ev fp_ev fl_ev)
  moreover have "nan32 0x7FC00000" "\<not> nan32 0x7F800000" by (simp_all add: val_ev)
  ultimately show ?thesis by (simp add: fle_iff)
qed

text \<open>
  Claim C10, as amended. Whenever \<open>sin\<close> or \<open>cos\<close> returns on an input that is not a
  NaN, the returned value lies in \<open>[-(1 + 2 ^ -23), 1 + 2 ^ -23]\<close>: the argument the loops
  hand over is in \<open>[-pi, pi]\<close>, and so is the argument of \<open>cos\<close> after the phase shift and
  the re-wrap, the parabola base term there lies in
  \<open>[-(1 + 2 ^ -23), 1 + 2 ^ -23]\<close>, and the correction pass keeps a value of that interval
  in it, as it keeps a value of \<open>[-1, 1]\<close> in \<open>[-1, 1]\<close>. The claim as stated, with the
  interval \<open>[-1, 1]\<close>, fails: see the counterexample, where the base term and the
  result are \<open>1 + 2 ^ -23\<close>, the float next above 1.
\<close>

theorem sine_range:
  "(\<not> nan32 theta \<and> (sin_fm theta = Some r \<or> cos_fm theta = Some r) \<longrightarrow>
      fle (fabs r) (flit 8388609 8388608)) \<and>
   (\<not> nan32 theta \<and> wrap_below theta = Some t \<and> wrap_above t = Some z \<longrightarrow>
      fle (fneg pi_f) z \<and> fle z pi_f \<and>
      fle (fneg pi_f) (spec_rewrap (fadd z half_pi)) \<and>
      fle (spec_rewrap (fadd z half_pi)) pi_f) \<and>
   (fle (fneg pi_f) theta \<and> fle theta pi_f \<longrightarrow>
      fle (fabs (spec_parabola theta)) (flit 8388609 8388608)) \<and>
   (fle (fabs s) (flit 8388609 8388608) \<longrightarrow>
      fle (fabs (spec_correction s)) (flit 8388609 8388608)) \<and>
   (fle (fabs s) (flit 1 1) \<longrightarrow> fle (fabs (spec_correction s)) (flit 1 1))"
proof -
  have b: "flit 8388609 8388608 = 0x3F800001" "flit 1 1 = 0x3F800000"
    by (simp_all add: rnd_ev fp_ev fl_ev)
  have le: "fle (fabs x) 0x3F800001 \<longleftrightarrow> fin32 x \<and> \<bar>valf x\<bar> \<le> 8388609 / 8388608" for x
  proof
    assume "fle (fabs x) 0x3F800001"
    then have v: "\<not> nan32 x" "\<bar>valf x\<bar> \<le> 8388609 / 8388608" by (simp_all add: fle_iff edge32)
    then have "fin32 x" by (intro fin32_bound) simp
    with v show "fin32 x \<and> \<bar>valf x\<bar> \<le> 8388609 / 8388608" by simp
  qed (simp add: fle_iff edge32 fin32_not_nan)
  have le1: "fle (fabs x) 0x3F800000 \<longleftrightarrow> fin32 x \<and> \<bar>valf x\<bar> \<le> 1" for x
  proof
    assume "fle (fabs x) 0x3F800000"
    then have v: "\<not> nan32 x" "\<bar>valf x\<bar> \<le> 1" by (simp_all add: fle_iff c32)
    then have "fin32 x" by (intro fin32_bound) simp
    with v show "fin32 x \<and> \<bar>valf x\<bar> \<le> 1" by simp
  qed (simp add: fle_iff c32 fin32_not_nan)
  have 1: "fle (fabs r) 0x3F800001"
    if "\<not> nan32 theta \<and> (sin_fm theta = Some r \<or> cos_fm theta = Some r)"
  proof -
    from that sin_fm_result [of theta r] cos_fm_result [of theta r]
    obtain t where "fle (fneg pi_f) t" "fle t pi_f" "r = spec_sin t" by blast
    with sine_bound_reduced [of t] show ?thesis by (simp add: le)
  qed
  have 0: "fle (fneg pi_f) z \<and> fle z pi_f \<and>
      fle (fneg pi_f) (spec_rewrap (fadd z half_pi)) \<and> fle (spec_rewrap (fadd z half_pi)) pi_f"
    if "\<not> nan32 theta \<and> wrap_below theta = Some t \<and> wrap_above t = Some z"
  proof -
    from that loops_reduce [of theta t z] have "fle (fneg pi_f) z" "fle z pi_f" by simp_all
    with phase_shift_range [of z] show ?thesis by simp
  qed
  have 2: "fle (fabs (spec_parabola theta)) 0x3F800001"
    if "fle (fneg pi_f) theta \<and> fle theta pi_f"
    using that parabola_range [of theta] by (simp add: le)
  have 3: "fle (fabs (spec_correction s)) 0x3F800001" if "fle (fabs s) 0x3F800001"
    using that correction_bound [of s] by (simp add: le)
  have 4: "fle (fabs (spec_correction s)) 0x3F800000" if "fle (fabs s) 0x3F800000"
    using that correction_range [of s] by (simp add: le1)
  from 0 1 2 3 4 show ?thesis unfolding b by blast
qed

theorem sine_range_witness:
  "\<not> nan32 (flit 8 1) \<and> sin_fm (flit 8 1) = Some 0x3F7D4B5E \<and>
   cos_fm (flit 8 1) = Some 0xBE13ED11 \<and>
   wrap_below (flit 8 1) = Some (flit 8 1) \<and> wrap_above (flit 8 1) = Some 0x3FDBC094 \<and>
   fle (fneg pi_f) 0x3FDBC094 \<and> fle 0x3FDBC094 pi_f \<and>
   fle (fneg pi_f) (spec_rewrap (fadd 0x3FDBC094 half_pi)) \<and>
   fle (spec_rewrap (fadd 0x3FDBC094 half_pi)) pi_f \<and>
   fle (fabs 0x3F7D4B5E) (flit 8388609 8388608) \<and>
   fle (fabs 0xBE13ED11) (flit 8388609 8388608) \<and>
   fle (fneg pi_f) (flit 1 1) \<and> fle (flit 1 1) pi_f \<and>
   fle (fabs (spec_parabola (flit 1 1))) (flit 8388609 8388608) \<and>
   fle (fabs (flit 1 2)) (flit 1 1) \<and> fle (fabs (flit 1 2)) (flit 8388609 8388608) \<and>
   fle (fabs (spec_correction (flit 1 2))) (flit 1 1) \<and>
   fle (fabs (spec_correction (flit 1 2))) (flit 8388609 8388608)"
proof -
  have n: "\<not> nan32 (flit 8 1)" by (simp add: rnd_ev fp_ev fl_ev) (simp add: val_ev)
  have x: "flit 8 1 = 0x41000000" by (simp add: rnd_ev fp_ev fl_ev)
  have wb: "wrap_below 0x41000000 = Some 0x41000000"
    by (simp add: wrap_steps(2) cbits rnd_ev fp_ev fl_ev)
  have "flt pi_f 0x41000000" "fsub 0x41000000 two_pi = 0x3FDBC094" "\<not> flt pi_f 0x3FDBC094"
    by (simp_all add: cbits rnd_ev fp_ev fl_ev)
  then have wa: "wrap_above 0x41000000 = Some 0x3FDBC094" by (simp add: wrap_steps(3,4))
  have w: "wrap_below (flit 8 1) = Some (flit 8 1)" "wrap_above (flit 8 1) = Some 0x3FDBC094"
    by (simp_all only: x wb wa)
  from n w sine_range [where theta = "flit 8 1" and t = "flit 8 1" and z = "0x3FDBC094"]
  have red: "fle (fneg pi_f) 0x3FDBC094" "fle 0x3FDBC094 pi_f"
    "fle (fneg pi_f) (spec_rewrap (fadd 0x3FDBC094 half_pi))"
    "fle (spec_rewrap (fadd 0x3FDBC094 half_pi)) pi_f"
    by blast+
  have "spec_sin 0x3FDBC094 = 0x3F7D4B5E"
    by (simp add: spec_sin_def spec_parabola_def spec_correction_def spec_sign_def spec_consts
        cbits rnd_ev fp_ev fl_ev)
  with sin_cos_loops(1) [OF wb wa red(1,2)] have s: "sin_fm (flit 8 1) = Some 0x3F7D4B5E"
    by (simp only: x)
  have "spec_cos 0x3FDBC094 = 0xBE13ED11"
    by (simp add: spec_cos_def spec_rewrap_def spec_sin_def spec_parabola_def spec_correction_def
        spec_sign_def spec_consts cbits rnd_ev fp_ev fl_ev)
  with sin_cos_loops(2) [OF wb wa red(1,2)] have c: "cos_fm (flit 8 1) = Some 0xBE13ED11"
    by (simp only: x)
  have h: "fle (fneg pi_f) (flit 1 1)" "fle (flit 1 1) pi_f"
    "fle (fabs (flit 1 2)) (flit 1 1)" "fle (fabs (flit 1 2)) (flit 8388609 8388608)"
    by (simp_all add: cbits rnd_ev fp_ev fl_ev)
  from n s sine_range [where theta = "flit 8 1" and r = "0x3F7D4B5E"]
  have 1: "fle (fabs 0x3F7D4B5E) (flit 8388609 8388608)" by blast
  from n c sine_range [where theta = "flit 8 1" and r = "0xBE13ED11"]
  have 2: "fle (fabs 0xBE13ED11) (flit 8388609 8388608)" by blast
  from h sine_range [where theta = "flit 1 1" and s = "flit 1 2"]
  have 3: "fle (fabs (spec_parabola (flit 1 1))) (flit 8388609 8388608)"
    "fle (fabs (spec_correction (flit 1 2))) (flit 1 1)"
    "fle (fabs (spec_correction (flit 1 2))) (flit 8388609 8388608)"
    by blast+
  from n s c w red h 1 2 3 show ?thesis by (intro conjI)
qed

theorem sine_exceeds_one:
  "\<not> nan32 0x3FC90AFA \<and> fle (fneg pi_f) 0x3FC90AFA \<and> fle 0x3FC90AFA pi_f \<and>
   spec_parabola 0x3FC90AFA = 0x3F800001 \<and> sin_fm 0x3FC90AFA = Some 0x3F800001 \<and>
   flt (flit 1 1) 0x3F800001 \<and> \<not> fle (fabs 0x3F800001) (flit 1 1)"
proof -
  have 1: "\<not> nan32 0x3FC90AFA" by (simp add: val_ev)
  have 2: "fle (fneg pi_f) 0x3FC90AFA" "fle 0x3FC90AFA pi_f"
    by (simp_all add: cbits rnd_ev fp_ev fl_ev)
  have 3: "spec_parabola 0x3FC90AFA = 0x3F800001"
    by (simp add: spec_parabola_def spec_sign_def spec_consts cbits rnd_ev fp_ev fl_ev)
  have "spec_sin 0x3FC90AFA = 0x3F800001"
    by (simp add: spec_sin_def 3 spec_correction_def spec_consts cbits rnd_ev fp_ev fl_ev)
  with sin_fm_reduced [OF 2] have 4: "sin_fm 0x3FC90AFA = Some 0x3F800001" by simp
  have 5: "flt (flit 1 1) 0x3F800001" "\<not> fle (fabs 0x3F800001) (flit 1 1)"
    by (simp_all add: rnd_ev fp_ev fl_ev)
  from 1 2 3 4 5 show ?thesis by (intro conjI)
qed

end
